theory Spec2Isabelle
  imports Complex_Main "HOL-Library.FSet"
begin

section \<open>Python values used by the context manager\<close>

text \<open>
  A Python \<open>str\<close> is modelled as a \<open>string\<close> whose characters are the code points
  0 to 255 (the Latin-1 range of \<open>str\<close>); the character classes below are the ones
  \<open>str.lower\<close>, \<open>str.split\<close> and the \<open>re\<close> module use on that range. A Python
  \<open>set\<close> is a finite set (\<open>fset\<close>), \<open>len\<close> of it is \<open>fcard\<close>.
\<close>

definition is_upper :: "char \<Rightarrow> bool" where
  "is_upper c = (let n = (of_char c :: nat) in
     (65 \<le> n \<and> n \<le> 90) \<or> (192 \<le> n \<and> n \<le> 222 \<and> n \<noteq> 215))"

text \<open>Lower-casing adds 32 to the code point of an upper-case letter, that is, sets bit 5.\<close>

fun lower_char :: "char \<Rightarrow> char" where
  "lower_char (Char b0 b1 b2 b3 b4 b5 b6 b7) =
     (if is_upper (Char b0 b1 b2 b3 b4 b5 b6 b7) then Char b0 b1 b2 b3 b4 True b6 b7
      else Char b0 b1 b2 b3 b4 b5 b6 b7)"

definition lower :: "string \<Rightarrow> string" where
  "lower text = map lower_char text"

text \<open>The class \<open>[a-zA-Z]\<close>.\<close>

definition is_ascii_letter :: "char \<Rightarrow> bool" where
  "is_ascii_letter c = (let n = (of_char c :: nat) in
     (65 \<le> n \<and> n \<le> 90) \<or> (97 \<le> n \<and> n \<le> 122))"

text \<open>The class \<open>\w\<close> of a \<open>str\<close> pattern: alphanumeric (letters, digits and the numeric
  characters of Latin-1) or the underscore.\<close>

definition is_word_char :: "char \<Rightarrow> bool" where
  "is_word_char c = (let n = (of_char c :: nat) in
     (48 \<le> n \<and> n \<le> 57) \<or> (65 \<le> n \<and> n \<le> 90) \<or> n = 95 \<or> (97 \<le> n \<and> n \<le> 122) \<or>
     n = 170 \<or> n = 178 \<or> n = 179 \<or> n = 181 \<or> n = 185 \<or> n = 186 \<or>
     (188 \<le> n \<and> n \<le> 190) \<or> (192 \<le> n \<and> n \<le> 214) \<or> (216 \<le> n \<and> n \<le> 246) \<or>
     248 \<le> n)"

text \<open>\<open>\b\<close>: the character before the position and the character after it differ in being
  word characters; outside the text counts as a non-word character. The first argument
  says whether the character before the position is a word character.\<close>

definition word_boundary :: "bool \<Rightarrow> string \<Rightarrow> bool" where
  "word_boundary prev_word rest =
     (prev_word \<noteq> (case rest of [] \<Rightarrow> False | c # _ \<Rightarrow> is_word_char c))"

text \<open>\<open>[a-zA-Z]{3,}\b\<close> at the start of \<open>s\<close>, after the greedy quantifier has taken \<open>n\<close>
  letters: the matcher checks \<open>\b\<close> and gives one letter back at a time, down to three.\<close>

fun match_letters :: "string \<Rightarrow> nat \<Rightarrow> nat option" where
  "match_letters s n =
     (if n < 3 then None
      else if word_boundary (is_word_char (s ! (n - 1))) (drop n s) then Some n
      else match_letters s (n - 1))"

declare match_letters.simps [simp del]

text \<open>\<open>re.findall(r'\b[a-zA-Z]{3,}\b', s)\<close>: the scan tries each position from left to
  right and resumes after a match.\<close>

function findall_words :: "bool \<Rightarrow> string \<Rightarrow> string list" where
  "findall_words prev_word [] = []"
| "findall_words prev_word (c # cs) =
     (if word_boundary prev_word (c # cs) then
        (case match_letters (c # cs) (length (takeWhile is_ascii_letter (c # cs))) of
           Some n \<Rightarrow> take n (c # cs) #
                     findall_words (is_word_char ((c # cs) ! (n - 1))) (drop n (c # cs))
         | None \<Rightarrow> findall_words (is_word_char c) cs)
      else findall_words (is_word_char c) cs)"
  by pat_completeness auto
termination
proof (relation "measure (\<lambda>(p, s). length s)")
  have ge3: "3 \<le> n" if "match_letters s m = Some n" for s m n
    using that
    by (induction s m rule: match_letters.induct)
       (subst (asm) match_letters.simps, auto split: if_splits)
  fix prev_word :: bool and c :: char and cs :: string and n :: nat
  assume "match_letters (c # cs) (length (takeWhile is_ascii_letter (c # cs))) = Some n"
  then have "3 \<le> n" by (rule ge3)
  then show "((is_word_char ((c # cs) ! (n - 1)), drop n (c # cs)), prev_word, c # cs)
      \<in> measure (\<lambda>(p, s). length s)"
    by simp
qed simp_all

text \<open>The operator \<open>in\<close> on strings: \<open>k in s\<close>.\<close>

fun str_contains :: "string \<Rightarrow> string \<Rightarrow> bool" where
  "str_contains k [] = (k = [])"
| "str_contains k (c # cs) = (take (length k) (c # cs) = k \<or> str_contains k cs)"

subsection \<open>Floating point\<close>

text \<open>
  \<open>intersection / union\<close> is the true division of two integers, which CPython rounds
  correctly to a binary64 number; \<open>0.7\<close> denotes the binary64 number nearest to 7/10.
  \<open>double_of_frac p q\<close> is the binary64 number nearest to \<open>p / q\<close> (ties to even) as a
  real, for \<open>0 < q\<close> and a quotient in the normal range: with \<open>e\<close> the exponent of the
  quotient, it is the quotient rounded to a multiple of \<open>2 ^ (e - 52)\<close>. The difference
  \<open>1 - 0.7\<close> of the comparison is formed on the reals: the exact difference of the two
  binary64 numbers is a binary64 number, so rounding leaves it as it is
  (\<open>threshold_difference_exact\<close> below).
\<close>

fun bitlen :: "nat \<Rightarrow> nat" where
  "bitlen n = (if n = 0 then 0 else Suc (bitlen (n div 2)))"

declare bitlen.simps [simp del]

definition round_div :: "nat \<Rightarrow> nat \<Rightarrow> nat" where
  "round_div p q = (let n = p div q; r = p mod q in
     if 2 * r < q then n else if q < 2 * r then n + 1 else if even n then n else n + 1)"

definition double_of_frac :: "nat \<Rightarrow> nat \<Rightarrow> real" where
  "double_of_frac p q = (if p = 0 then 0 else
     let d = int (bitlen p) - int (bitlen q);
         e = (if q * 2 ^ nat d \<le> p * 2 ^ nat (- d) then d else d - 1);
         m = round_div (p * 2 ^ nat (52 - e)) (q * 2 ^ nat (e - 52))
     in if 52 \<le> e then real (m * 2 ^ nat (e - 52)) else real m / 2 ^ nat (52 - e))"

section \<open>conversation_manager.py\<close>

definition MAX_HISTORY_LENGTH :: nat where
  "MAX_HISTORY_LENGTH = 12"

definition TOPIC_CHANGE_THRESHOLD :: real where
  "TOPIC_CHANGE_THRESHOLD = double_of_frac 7 10"

definition AUTO_RESET_KEYWORDS :: "string list" where
  "AUTO_RESET_KEYWORDS =
     [''new topic'', ''change subject'', ''something else'', ''different question'',
      ''by the way'', ''btw'', ''moving on'', ''next question'', ''different topic'']"

text \<open>A message is the dictionary with the keys role, content, timestamp and
  topic\_keywords; two messages are equal when the four values are.\<close>

record message =
  role :: string
  content :: string
  timestamp :: real
  msg_topic_keywords :: "string fset"

record ConversationContext =
  messages :: "message list"
  current_topic :: "string option"
  topic_keywords :: "string fset"
  last_reset :: real

text \<open>\<open>deque(maxlen=MAX_HISTORY_LENGTH).append\<close>: the element is added on the right, and
  the leftmost one is dropped when the length has passed the maximum.\<close>

definition deque_append :: "'a list \<Rightarrow> 'a \<Rightarrow> 'a list" where
  "deque_append xs x =
     (let ys = xs @ [x] in if MAX_HISTORY_LENGTH < length ys then tl ys else ys)"

text \<open>The newest \<open>MAX_HISTORY_LENGTH\<close> elements of a list, for stating what a bounded
  history holds.\<close>

definition newest :: "'a list \<Rightarrow> 'a list" where
  "newest xs = drop (length xs - MAX_HISTORY_LENGTH) xs"

text \<open>\<open>list.index\<close>: the position of the first element equal to \<open>x\<close>. It is only called
  with an element of the list.\<close>

definition list_index :: "'a list \<Rightarrow> 'a \<Rightarrow> nat" where
  "list_index xs x = length (takeWhile (\<lambda>y. y \<noteq> x) xs)"

text \<open>The constructor; \<open>now\<close> is the reading of \<open>time.time()\<close>, here and below.\<close>

definition new_context :: "real \<Rightarrow> ConversationContext" where
  "new_context now =
     \<lparr>messages = [], current_topic = None, topic_keywords = {||}, last_reset = now\<rparr>"

text \<open>The message \<open>add_message\<close> builds. The argument \<open>kws\<close> is \<open>None\<close> or a set;
  \<open>None\<close> and the empty set are both falsy, so \<open>topic_keywords or set()\<close> is the set
  itself or the empty set.\<close>

definition truthy :: "string fset option \<Rightarrow> bool" where
  "truthy kws = (case kws of None \<Rightarrow> False | Some k \<Rightarrow> k \<noteq> {||})"

definition new_message :: "string \<Rightarrow> string \<Rightarrow> string fset option \<Rightarrow> real \<Rightarrow> message" where
  "new_message r txt kws now =
     \<lparr>role = r, content = txt, timestamp = now,
      msg_topic_keywords = (case kws of None \<Rightarrow> {||} | Some k \<Rightarrow> if truthy kws then k else {||})\<rparr>"

definition add_message ::
  "ConversationContext \<Rightarrow> string \<Rightarrow> string \<Rightarrow> string fset option \<Rightarrow> real \<Rightarrow> ConversationContext" where
  "add_message c r txt kws now =
     (let c1 = c\<lparr>messages := deque_append (messages c) (new_message r txt kws now)\<rparr>
      in case kws of
           Some k \<Rightarrow> if truthy kws then c1\<lparr>topic_keywords := topic_keywords c1 |\<union>| k\<rparr> else c1
         | None \<Rightarrow> c1)"

text \<open>A sequence of calls of \<open>add_message\<close> on one context, each with its arguments.\<close>

fun add_messages ::
  "ConversationContext \<Rightarrow> (string \<times> string \<times> string fset option \<times> real) list \<Rightarrow> ConversationContext" where
  "add_messages c [] = c"
| "add_messages c ((r, txt, kws, now) # calls) = add_messages (add_message c r txt kws now) calls"

definition get_relevant_messages :: "ConversationContext \<Rightarrow> string fset \<Rightarrow> message list" where
  "get_relevant_messages c current_keywords =
     (if current_keywords = {||} then messages c
      else filter (\<lambda>msg.
             length (messages c) - list_index (messages c) msg \<le> 4 \<or>
             (msg_topic_keywords msg \<noteq> {||} \<and> current_keywords \<noteq> {||} \<and>
              0 < fcard (msg_topic_keywords msg |\<inter>| current_keywords)))
           (messages c))"

definition clear_context :: "ConversationContext \<Rightarrow> real \<Rightarrow> ConversationContext" where
  "clear_context c now =
     c\<lparr>messages := [], current_topic := None, topic_keywords := {||}, last_reset := now\<rparr>"

definition stopwords :: "string set" where
  "stopwords = set
     [''the'', ''a'', ''an'', ''and'', ''or'', ''but'', ''in'', ''on'', ''at'', ''to'', ''for'', ''of'',
      ''with'', ''by'', ''from'', ''up'', ''about'', ''into'', ''through'', ''during'', ''before'',
      ''after'', ''above'', ''below'', ''between'', ''among'', ''is'', ''are'', ''was'', ''were'',
      ''be'', ''been'', ''being'', ''have'', ''has'', ''had'', ''do'', ''does'', ''did'', ''will'',
      ''would'', ''could'', ''should'', ''may'', ''might'', ''must'', ''can'', ''this'', ''that'',
      ''these'', ''those'', ''i'', ''you'', ''he'', ''she'', ''it'', ''we'', ''they'', ''me'', ''him'',
      ''her'', ''us'', ''them'', ''my'', ''your'', ''his'', ''her'', ''its'', ''our'', ''their'']"

text \<open>
  \<open>keywords\<close> is a set, and \<open>list(keywords)\<close> lists it in the iteration order of the
  set, which depends on the hashes of the strings (randomised for each process) and not
  only on the order of insertion. The model takes that order as the parameter
  \<open>set_order\<close>: it maps the words in the order they were inserted to the list
  \<open>list(keywords)\<close>.
\<close>

definition extract_topic_keywords :: "(string list \<Rightarrow> string list) \<Rightarrow> string \<Rightarrow> string fset" where
  "extract_topic_keywords set_order text =
     (let words = findall_words False (lower text);
          keywords = [word \<leftarrow> words. word \<notin> stopwords]
      in fset_of_list (take 10 (set_order keywords)))"

text \<open>An iteration order lists each element of the set once.\<close>

definition iteration_order :: "(string list \<Rightarrow> string list) \<Rightarrow> bool" where
  "iteration_order set_order = (\<forall>ws. set (set_order ws) = set ws \<and> distinct (set_order ws))"

definition detect_topic_change :: "string fset \<Rightarrow> string fset \<Rightarrow> bool" where
  "detect_topic_change old_keywords new_keywords =
     (if old_keywords = {||} \<or> new_keywords = {||} then False
      else let intersection = fcard (old_keywords |\<inter>| new_keywords);
               union = fcard (old_keywords |\<union>| new_keywords)
           in if union = 0 then False
              else double_of_frac intersection union < 1 - TOPIC_CHANGE_THRESHOLD)"

definition detect_explicit_topic_change :: "string \<Rightarrow> bool" where
  "detect_explicit_topic_change text =
     list_ex (\<lambda>keyword. str_contains keyword (lower text)) AUTO_RESET_KEYWORDS"

text \<open>The module's dictionaries.\<close>

record store =
  conversation_histories :: "int \<rightharpoonup> ConversationContext"
  user_topics :: "int \<rightharpoonup> string fset"

definition empty_store :: store where
  "empty_store = \<lparr>conversation_histories = Map.empty, user_topics = Map.empty\<rparr>"

text \<open>The two notifications \<open>add_to_conversation_history\<close> returns: "New conversation
  started - Context cleared!" and "Topic change detected - Starting fresh context!".\<close>

datatype notification = New_conversation_started | Topic_change_detected

text \<open>\<open>if user_id not in conversation_histories: conversation_histories[user_id] =
  ConversationContext()\<close>, then \<open>context = conversation_histories[user_id]\<close>.\<close>

definition context_of :: "store \<Rightarrow> int \<Rightarrow> real \<Rightarrow> ConversationContext \<times> store" where
  "context_of st user_id now =
     (case conversation_histories st user_id of
        Some c \<Rightarrow> (c, st)
      | None \<Rightarrow> (new_context now,
                 st\<lparr>conversation_histories := (conversation_histories st)(user_id \<mapsto> new_context now)\<rparr>))"

text \<open>\<open>user_topics.get(user_id, set())\<close>.\<close>

definition tracked_keywords :: "store \<Rightarrow> int \<Rightarrow> string fset" where
  "tracked_keywords st user_id = (case user_topics st user_id of None \<Rightarrow> {||} | Some k \<Rightarrow> k)"

definition get_conversation_history :: "store \<Rightarrow> int \<Rightarrow> real \<Rightarrow> (string \<times> string) list \<times> store" where
  "get_conversation_history st user_id now =
     (let (context, st1) = context_of st user_id now;
          current_keywords = tracked_keywords st user_id;
          relevant_messages = get_relevant_messages context current_keywords
      in (map (\<lambda>msg. (role msg, content msg)) relevant_messages, st1))"

text \<open>The readings of the clock one call of \<open>add_to_conversation_history\<close> can take: in the
  constructor of a new context, in \<open>clear_context\<close> and in \<open>add_message\<close>.\<close>

record clock =
  t_init :: real
  t_clear :: real
  t_add :: real

definition add_to_conversation_history ::
  "(string list \<Rightarrow> string list) \<Rightarrow> store \<Rightarrow> int \<Rightarrow> string \<Rightarrow> string \<Rightarrow> clock \<Rightarrow>
   notification option \<times> store" where
  "add_to_conversation_history set_order st user_id r txt clk =
     (let (context, st1) = context_of st user_id (t_init clk);
          new_keywords = extract_topic_keywords set_order txt;
          current_keywords = tracked_keywords st user_id
      in if r = ''user'' then
           (let (context1, context_reset_message) =
                  (if detect_explicit_topic_change txt
                   then (clear_context context (t_clear clk), Some New_conversation_started)
                   else if current_keywords \<noteq> {||} \<and> detect_topic_change current_keywords new_keywords
                   then (if 4 \<le> length (messages context)
                         then (clear_context context (t_clear clk), Some Topic_change_detected)
                         else (context, None))
                   else (context, None));
                context2 = add_message context1 r txt (Some new_keywords) (t_add clk)
            in (context_reset_message,
                st1\<lparr>conversation_histories := (conversation_histories st1)(user_id \<mapsto> context2),
                    user_topics := (user_topics st1)(user_id \<mapsto> new_keywords)\<rparr>))
         else
           (None,
            st1\<lparr>conversation_histories :=
                  (conversation_histories st1)(user_id \<mapsto> add_message context r txt None (t_add clk))\<rparr>))"

definition clear_user_context :: "store \<Rightarrow> int \<Rightarrow> real \<Rightarrow> bool \<times> store" where
  "clear_user_context st user_id now =
     (case conversation_histories st user_id of
        Some c \<Rightarrow>
          (True, st\<lparr>conversation_histories := (conversation_histories st)(user_id \<mapsto> clear_context c now),
                    user_topics := (user_topics st)(user_id := None)\<rparr>)
      | None \<Rightarrow> (False, st))"

text \<open>The calls a client of the module can make, each with the clock readings it takes,
  and a run of such calls from the empty dictionaries.\<close>

datatype operation =
    Get_history int real
  | Add_to_history int string string clock
  | Clear_context int real

fun apply_operation :: "(string list \<Rightarrow> string list) \<Rightarrow> store \<Rightarrow> operation \<Rightarrow> store" where
  "apply_operation set_order st (Get_history user_id now) =
     snd (get_conversation_history st user_id now)"
| "apply_operation set_order st (Add_to_history user_id r txt clk) =
     snd (add_to_conversation_history set_order st user_id r txt clk)"
| "apply_operation set_order st (Clear_context user_id now) =
     snd (clear_user_context st user_id now)"

definition run_operations :: "(string list \<Rightarrow> string list) \<Rightarrow> operation list \<Rightarrow> store" where
  "run_operations set_order ops = foldl (apply_operation set_order) empty_store ops"

text \<open>The clock of a call whose readings are all \<open>t\<close>.\<close>

definition at_time :: "real \<Rightarrow> clock" where
  "at_time t = \<lparr>t_init = t, t_clear = t, t_add = t\<rparr>"

section \<open>The keyword extraction, as the specification words it\<close>

text \<open>
  The tokens of a text are its maximal runs of word characters; the alphabetic tokens are
  the tokens of at least three characters that consist of the letters a to z and A to Z
  only; the keywords the specification describes are the alphabetic tokens of the
  lower-cased text that are not stopwords, in the order they appear.
\<close>

function spec_tokens :: "string \<Rightarrow> string list" where
  "spec_tokens [] = []"
| "spec_tokens (c # cs) =
     (if is_word_char c then takeWhile is_word_char (c # cs) # spec_tokens (dropWhile is_word_char cs)
      else spec_tokens cs)"
  by pat_completeness auto
termination
  by (relation "measure length") (auto simp: less_Suc_eq_le length_dropWhile_le)

definition alphabetic_token :: "string \<Rightarrow> bool" where
  "alphabetic_token w \<longleftrightarrow> 3 \<le> length w \<and> list_all is_ascii_letter w"

definition spec_keywords :: "string \<Rightarrow> string list" where
  "spec_keywords text = [w \<leftarrow> spec_tokens (lower text). alphabetic_token w \<and> w \<notin> stopwords]"

text \<open>The order in which CPython 3.11 lists the set of the eleven words below when the hash
  seed is 0 (\<open>PYTHONHASHSEED=0\<close>); any other set is listed in the order of insertion.\<close>

definition seed0_order :: "string list \<Rightarrow> string list" where
  "seed0_order ws =
     (if ws = [''ant'', ''bee'', ''cat'', ''dog'', ''eel'', ''fox'', ''gnu'', ''hen'', ''jay'', ''koi'', ''owl'']
      then [''cat'', ''bee'', ''ant'', ''fox'', ''gnu'', ''owl'', ''eel'', ''koi'', ''jay'', ''hen'', ''dog'']
      else remdups ws)"

section \<open>fast_main.py: the retry loop of the worker\<close>

text \<open>
  An element of \<open>job.tools\<close> is a string naming a built-in tool or the dictionary of a custom
  function (kept here by its name). Of the update a job carries, the loop uses the id of
  the user and whether \<open>job.update.message\<close> is there.
\<close>

datatype tool = Builtin string | Function_tool string

record job =
  job_user_id :: int
  job_has_message :: bool
  job_prompt :: string
  job_tools :: "tool list"

text \<open>
  \<open>mistral_send_prompt\<close> returns a string (a text or the path of an image), the dictionary
  of a tool call request or \<open>None\<close>, or raises. The remote service is outside the program: the
  model takes the outcome of the n-th call (counted from 0) from the function \<open>api\<close>, and
  the clock readings of the n-th attempt from \<open>clocks\<close>.
\<close>

datatype completion = Text string | Tool_calls "(string \<times> string) list"

datatype outcome = Raises string | Returns "completion option"

text \<open>What the loop does that can be observed from outside: calls of the completion
  interface, \<open>asyncio.sleep\<close> with its seconds, and the reply "Retrying... (attempt k/n)".\<close>

datatype event = Api_call | Sleep nat | Reply_retrying nat nat

record worker_state =
  wstore :: store
  retry_count :: nat
  result :: "completion option"
  prompt_to_send :: string
  context_reset_message :: "notification option"
  trace :: "event list"
  requests :: "(string \<times> (string \<times> string) list) list"

definition max_retries :: nat where
  "max_retries = 3"

text \<open>The state before the loop; \<open>requests\<close> collects the prompt and the history each call
  is given.\<close>

definition initial_state :: "store \<Rightarrow> job \<Rightarrow> worker_state" where
  "initial_state st j =
     \<lparr>wstore = st, retry_count = 0, result = None, prompt_to_send = job_prompt j,
      context_reset_message = None, trace = [], requests = []\<rparr>"

text \<open>The body of the \<open>try\<close> up to the call: the history is read, the prompt is appended to
  it unless the job generates an image, and the prompt of an image job is rewritten.\<close>

definition begin_attempt ::
  "(string list \<Rightarrow> string list) \<Rightarrow> (nat \<Rightarrow> clock) \<Rightarrow> job \<Rightarrow> worker_state \<Rightarrow> worker_state" where
  "begin_attempt set_order clocks j s =
     (let clk = clocks (length (requests s));
          (history, st1) = get_conversation_history (wstore s) (job_user_id j) (t_init clk);
          (notice, st2) =
             (if Builtin ''image_generation'' \<notin> set (job_tools j)
              then add_to_conversation_history set_order st1 (job_user_id j) ''user'' (job_prompt j) clk
              else (context_reset_message s, st1));
          to_send =
             (if Builtin ''image_generation'' \<in> set (job_tools j)
              then ''Generate a high-quality, detailed image of: '' @ job_prompt j
              else prompt_to_send s)
      in s\<lparr>wstore := st2, context_reset_message := notice, prompt_to_send := to_send,
            trace := trace s @ [Api_call], requests := requests s @ [(to_send, history)]\<rparr>)"

text \<open>The handler of an exception when attempts remain: the count has been incremented,
  the worker sleeps \<open>2 ** retry_count\<close> seconds and then replies, if there is a message to
  reply to.\<close>

definition backoff :: "job \<Rightarrow> worker_state \<Rightarrow> worker_state" where
  "backoff j s =
     s\<lparr>trace := trace s @ [Sleep (2 ^ retry_count s)] @
          (if job_has_message j then [Reply_retrying (retry_count s + 1) max_retries] else [])\<rparr>"

text \<open>
  \<open>while retry_count < max_retries and result is None\<close>. The loop ends with \<open>Inr\<close> and the
  state when the condition fails, and with \<open>Inl\<close>, the error and the state when the error of
  the last attempt is raised to the handler around the loop. It need not end: the value
  is then \<open>None\<close>.
\<close>

partial_function (option) retry_loop ::
  "(string list \<Rightarrow> string list) \<Rightarrow> (nat \<Rightarrow> outcome) \<Rightarrow> (nat \<Rightarrow> clock) \<Rightarrow> job \<Rightarrow> worker_state \<Rightarrow>
   (string \<times> worker_state + worker_state) option" where
  "retry_loop set_order api clocks j s =
     (if retry_count s < max_retries \<and> result s = None then
        (case api (length (requests s)) of
           Returns r \<Rightarrow>
             retry_loop set_order api clocks j ((begin_attempt set_order clocks j s)\<lparr>result := r\<rparr>)
         | Raises api_error \<Rightarrow>
             (if retry_count s + 1 < max_retries
              then retry_loop set_order api clocks j
                     (backoff j ((begin_attempt set_order clocks j s)\<lparr>retry_count := retry_count s + 1\<rparr>))
              else Some (Inl (api_error,
                     (begin_attempt set_order clocks j s)\<lparr>retry_count := retry_count s + 1\<rparr>))))
      else Some (Inr s))"

text \<open>What a run of the loop shows: the error raised or the result, the events in order, and
  the number of calls of the completion interface.\<close>

definition observe ::
  "(string \<times> worker_state + worker_state) option \<Rightarrow>
   ((string + completion option) \<times> event list \<times> nat) option" where
  "observe run = map_option
     (\<lambda>out. case out of
        Inl (api_error, s) \<Rightarrow> (Inl api_error, trace s, length (requests s))
      | Inr s \<Rightarrow> (Inr (result s), trace s, length (requests s))) run"

definition notice :: "job \<Rightarrow> nat \<Rightarrow> event list" where
  "notice j k = (if job_has_message j then [Reply_retrying k max_retries] else [])"

definition state_of :: "string \<times> worker_state + worker_state \<Rightarrow> worker_state" where
  "state_of out = (case out of Inl (api_error, s) \<Rightarrow> s | Inr s \<Rightarrow> s)"

text \<open>The message the n-th attempt of a job appends to the history of its user.\<close>

definition prompt_message ::
  "(string list \<Rightarrow> string list) \<Rightarrow> (nat \<Rightarrow> clock) \<Rightarrow> job \<Rightarrow> nat \<Rightarrow> message" where
  "prompt_message set_order clocks j n =
     new_message ''user'' (job_prompt j) (Some (extract_topic_keywords set_order (job_prompt j)))
       (t_add (clocks n))"

section \<open>fast_main.py: the validation of the input\<close>

text \<open>\<open>str.isspace\<close> on the code points 0 to 255: the characters \<open>str.strip\<close> and
  \<open>str.split\<close> take for whitespace.\<close>

definition is_space :: "char \<Rightarrow> bool" where
  "is_space c = (let n = (of_char c :: nat) in
     (9 \<le> n \<and> n \<le> 13) \<or> (28 \<le> n \<and> n \<le> 32) \<or> n = 133 \<or> n = 160)"

definition strip :: "string \<Rightarrow> string" where
  "strip s = rev (dropWhile is_space (rev (dropWhile is_space s)))"

text \<open>\<open>s.split()\<close>: the maximal runs of characters that are not whitespace.\<close>

function split :: "string \<Rightarrow> string list" where
  "split [] = []"
| "split (c # cs) =
     (if is_space c then split cs
      else takeWhile (\<lambda>d. \<not> is_space d) (c # cs) # split (dropWhile (\<lambda>d. \<not> is_space d) cs))"
  by pat_completeness auto
termination
  by (relation "measure length") (auto simp: less_Suc_eq_le length_dropWhile_le)

fun join :: "string \<Rightarrow> string list \<Rightarrow> string" where
  "join sep [] = []"
| "join sep [w] = w"
| "join sep (w # v # ws) = w @ sep @ join sep (v # ws)"

text \<open>\<open>" ".join(text.strip().split())\<close>.\<close>

definition normalize :: "string \<Rightarrow> string" where
  "normalize text = join '' '' (split (strip text))"

text \<open>A literal of a pattern compiled with \<open>(?i)\<close>, at the start of \<open>s\<close>; the literals of
  the pattern below are lower-case letters and digits.\<close>

definition literal_ci :: "string \<Rightarrow> string \<Rightarrow> bool" where
  "literal_ci p s \<longleftrightarrow> length p \<le> length s \<and> map lower_char (take (length p) s) = p"

text \<open>
  \<open>(?i)\b(spam|test|aaa+|111+)\b\<close> at one position: \<open>\b\<close>, one of the four
  alternatives, \<open>\b\<close>. The last character an alternative matches is a word character.
  The quantifier \<open>+\<close> takes the whole run of the character and gives back one at a time,
  down to three characters in all, as \<open>match_letters\<close> does.
\<close>

definition match_low_content :: "bool \<Rightarrow> string \<Rightarrow> bool" where
  "match_low_content prev_word s \<longleftrightarrow>
     word_boundary prev_word s \<and>
     ((literal_ci ''spam'' s \<and> word_boundary True (drop 4 s)) \<or>
      (literal_ci ''test'' s \<and> word_boundary True (drop 4 s)) \<or>
      match_letters s (length (takeWhile (\<lambda>c. lower_char c = CHR ''a'') s)) \<noteq> None \<or>
      match_letters s (length (takeWhile (\<lambda>c. lower_char c = CHR ''1'') s)) \<noteq> None)"

text \<open>\<open>re.search\<close> tries the positions from left to right.\<close>

fun search_low_content :: "bool \<Rightarrow> string \<Rightarrow> bool" where
  "search_low_content prev_word [] = False"
| "search_low_content prev_word (c # cs) =
     (match_low_content prev_word (c # cs) \<or> search_low_content (is_word_char c) cs)"

text \<open>\<open>(.)\1{20,}\<close>: a character other than a line feed, followed by at least twenty
  copies of itself.\<close>

fun search_repeated :: "string \<Rightarrow> bool" where
  "search_repeated [] = False"
| "search_repeated (c # cs) =
     ((c \<noteq> CHR 0x0A \<and> 20 \<le> length (takeWhile (\<lambda>d. d = c) cs)) \<or> search_repeated cs)"

text \<open>The four error messages, with the numbers the message on the length shows, and the
  empty message of an accepted input.\<close>

datatype validation_message =
    No_error
  | Empty_input
  | Input_too_long nat nat
  | Input_too_short
  | Invalid_input

definition validate_and_sanitize_input :: "string \<Rightarrow> nat \<Rightarrow> bool \<times> string \<times> validation_message" where
  "validate_and_sanitize_input text max_length =
     (if text = [] \<or> strip text = [] then (False, [], Empty_input)
      else let cleaned = normalize text in
        if max_length < length cleaned then (False, [], Input_too_long max_length (length cleaned))
        else if length cleaned < 3 then (False, [], Input_too_short)
        else if (length cleaned < 20 \<and> search_low_content False cleaned) \<or> search_repeated cleaned
        then (False, [], Invalid_input)
        else (True, cleaned, No_error))"

text \<open>The conditions of the specification, stated on the text: a run of 21 equal
  characters, and a low-content word, which is \<open>spam\<close>, \<open>test\<close>, three or more \<open>a\<close> or three
  or more \<open>1\<close>, in either case of the letters, with no word character before or after it.\<close>

definition has_long_run :: "string \<Rightarrow> bool" where
  "has_long_run s \<longleftrightarrow> (\<exists>pre c post. s = pre @ replicate 21 c @ post \<and> c \<noteq> CHR 0x0A)"

definition low_content :: "string \<Rightarrow> bool" where
  "low_content w \<longleftrightarrow>
     w = ''spam'' \<or> w = ''test'' \<or>
     (3 \<le> length w \<and> (w = replicate (length w) CHR ''a'' \<or> w = replicate (length w) CHR ''1''))"

definition has_low_content_word :: "string \<Rightarrow> bool" where
  "has_low_content_word s \<longleftrightarrow>
     (\<exists>pre w post. s = pre @ w @ post \<and> low_content (lower w) \<and>
        (pre = [] \<or> \<not> is_word_char (last pre)) \<and> (post = [] \<or> \<not> is_word_char (hd post)))"

section \<open>Observations and invariants\<close>

text \<open>What a user's context holds, and the bound on the keyword sets kept for the users:
  the tracked set of each user and the set stored with each message.\<close>

definition stored_messages :: "store \<Rightarrow> int \<Rightarrow> message list" where
  "stored_messages st user_id =
     (case conversation_histories st user_id of None \<Rightarrow> [] | Some c \<Rightarrow> messages c)"

definition keywords_bounded :: "store \<Rightarrow> bool" where
  "keywords_bounded st \<longleftrightarrow>
     (\<forall>u k. user_topics st u = Some k \<longrightarrow> fcard k \<le> 10) \<and>
     (\<forall>u c m. conversation_histories st u = Some c \<and> m \<in> set (messages c) \<longrightarrow>
        fcard (msg_topic_keywords m) \<le> 10)"

section \<open>Properties of the context manager\<close>

lemmas char_classes = is_upper_def is_ascii_letter_def is_word_char_def word_boundary_def lower_def


subsection \<open>The bounded history\<close>

lemma deque_append_newest:
  "length xs \<le> MAX_HISTORY_LENGTH \<Longrightarrow> deque_append xs x = newest (xs @ [x])"
proof (cases "length xs = MAX_HISTORY_LENGTH")
  case True
  then have "xs \<noteq> []" by (auto simp: MAX_HISTORY_LENGTH_def)
  then show ?thesis using True by (cases xs) (simp_all add: deque_append_def newest_def Let_def)
next
  case False
  assume "length xs \<le> MAX_HISTORY_LENGTH"
  with False show ?thesis by (simp add: deque_append_def newest_def Let_def)
qed

lemma newest_append: "newest (newest xs @ ys) = newest (xs @ ys)"
proof -
  let ?k = "length xs - MAX_HISTORY_LENGTH"
  have "drop ?k xs @ ys = drop ?k (xs @ ys)" by simp
  moreover have "length xs + length ys - (?k + MAX_HISTORY_LENGTH) + ?k =
      length xs + length ys - MAX_HISTORY_LENGTH"
    by arith
  ultimately show ?thesis
    unfolding newest_def by (simp del: drop_append)
qed

lemma length_newest: "length (newest xs) \<le> MAX_HISTORY_LENGTH"
  by (simp add: newest_def)

lemma newest_id: "length xs \<le> MAX_HISTORY_LENGTH \<Longrightarrow> newest xs = xs"
  by (simp add: newest_def)

lemma messages_add_message:
  "messages (add_message c r t kws now) = deque_append (messages c) (new_message r t kws now)"
  by (simp add: add_message_def Let_def split: option.splits)

lemma add_messages_newest:
  "length (messages c) \<le> MAX_HISTORY_LENGTH \<Longrightarrow>
   messages (add_messages c calls) =
     newest (messages c @ map (\<lambda>(r, t, kws, now). new_message r t kws now) calls)"
proof (induction calls arbitrary: c)
  case Nil
  then show ?case by (simp add: newest_id)
next
  case (Cons call calls)
  obtain r t kws now where call: "call = (r, t, kws, now)" by (cases call) auto
  let ?c = "add_message c r t kws now"
  have m: "messages ?c = newest (messages c @ [new_message r t kws now])"
    using Cons.prems by (simp add: messages_add_message deque_append_newest)
  then have "length (messages ?c) \<le> MAX_HISTORY_LENGTH" by (simp add: length_newest)
  then have "messages (add_messages ?c calls) =
      newest (messages ?c @ map (\<lambda>(r, t, kws, now). new_message r t kws now) calls)"
    by (rule Cons.IH)
  then show ?case by (simp add: call m newest_append)
qed

text \<open>
  Claim C4. Whatever the sequence of calls of \<open>add_message\<close> on a new context, the stored
  messages are at most 12, and they are the newest 12 of the messages appended, in order.
  Appending to a context that holds 12 messages drops exactly the oldest one and keeps the
  other 11 in order, followed by the new message; after 13 calls the first message
  appended is the one missing.
\<close>

theorem history_bounded_fifo:
  "length (messages (add_messages (new_context t0) calls)) \<le> MAX_HISTORY_LENGTH \<and>
   messages (add_messages (new_context t0) calls) =
     newest (map (\<lambda>(r, t, kws, now). new_message r t kws now) calls) \<and>
   (length (messages c) = MAX_HISTORY_LENGTH \<longrightarrow>
      messages (add_message c r t kws now) = tl (messages c) @ [new_message r t kws now]) \<and>
   (length calls = 13 \<longrightarrow>
      messages (add_messages (new_context t0) calls) =
        map (\<lambda>(r, t, kws, now). new_message r t kws now) (tl calls))"
proof -
  let ?f = "\<lambda>(r, t, kws, now). new_message r t kws now"
  have stored: "messages (add_messages (new_context t0) calls) = newest (map ?f calls)"
    using add_messages_newest [of "new_context t0" calls] by (simp add: new_context_def)
  have bound: "length (messages (add_messages (new_context t0) calls)) \<le> MAX_HISTORY_LENGTH"
    unfolding stored by (rule length_newest)
  have evict: "messages (add_message c r t kws now) = tl (messages c) @ [new_message r t kws now]"
    if "length (messages c) = MAX_HISTORY_LENGTH"
  proof -
    from that have "messages c \<noteq> []" by (auto simp: MAX_HISTORY_LENGTH_def)
    with that show ?thesis by (simp add: messages_add_message deque_append_def Let_def)
  qed
  have thirteen: "newest (map ?f calls) = map ?f (tl calls)" if "length calls = 13"
    using that by (simp add: newest_def MAX_HISTORY_LENGTH_def drop_Suc map_tl)
  show ?thesis using stored bound evict thirteen by simp
qed

theorem history_bounded_fifo_witness:
  "length (messages \<lparr>messages = replicate 12 (new_message ''user'' ''hello'' None 0), current_topic = None,
      topic_keywords = {||}, last_reset = 0\<rparr>) = MAX_HISTORY_LENGTH \<and>
   messages (add_message \<lparr>messages = replicate 12 (new_message ''user'' ''hello'' None 0), current_topic = None,
      topic_keywords = {||}, last_reset = 0\<rparr> ''assistant'' ''bye'' None 5) =
     replicate 11 (new_message ''user'' ''hello'' None 0) @ [new_message ''assistant'' ''bye'' None 5] \<and>
   length [(''user'', ''hello'', None, 0), (''user'', ''hello'', None, 1), (''user'', ''hello'', None, 2), (''user'', ''hello'', None, 3), (''user'', ''hello'', None, 4), (''user'', ''hello'', None, 5), (''user'', ''hello'', None, 6), (''user'', ''hello'', None, 7), (''user'', ''hello'', None, 8), (''user'', ''hello'', None, 9), (''user'', ''hello'', None, 10), (''user'', ''hello'', None, 11), (''user'', ''hello'', None, 12)] = 13 \<and>
   messages (add_messages (new_context 0) [(''user'', ''hello'', None, 0), (''user'', ''hello'', None, 1), (''user'', ''hello'', None, 2), (''user'', ''hello'', None, 3), (''user'', ''hello'', None, 4), (''user'', ''hello'', None, 5), (''user'', ''hello'', None, 6), (''user'', ''hello'', None, 7), (''user'', ''hello'', None, 8), (''user'', ''hello'', None, 9), (''user'', ''hello'', None, 10), (''user'', ''hello'', None, 11), (''user'', ''hello'', None, 12)]) =
     [new_message ''user'' ''hello'' None 1, new_message ''user'' ''hello'' None 2, new_message ''user'' ''hello'' None 3, new_message ''user'' ''hello'' None 4, new_message ''user'' ''hello'' None 5, new_message ''user'' ''hello'' None 6, new_message ''user'' ''hello'' None 7, new_message ''user'' ''hello'' None 8, new_message ''user'' ''hello'' None 9, new_message ''user'' ''hello'' None 10, new_message ''user'' ''hello'' None 11, new_message ''user'' ''hello'' None 12]"
  using history_bounded_fifo [of 0 "[(''user'', ''hello'', None, 0), (''user'', ''hello'', None, 1), (''user'', ''hello'', None, 2), (''user'', ''hello'', None, 3), (''user'', ''hello'', None, 4), (''user'', ''hello'', None, 5), (''user'', ''hello'', None, 6), (''user'', ''hello'', None, 7), (''user'', ''hello'', None, 8), (''user'', ''hello'', None, 9), (''user'', ''hello'', None, 10), (''user'', ''hello'', None, 11), (''user'', ''hello'', None, 12)]"
      "\<lparr>messages = replicate 12 (new_message ''user'' ''hello'' None 0), current_topic = None,
      topic_keywords = {||}, last_reset = 0\<rparr>" "''assistant''" "''bye''" None 5]
  by (simp add: MAX_HISTORY_LENGTH_def messages_add_message deque_append_def new_context_def)

lemma take_length_eq: "take (length k) s = k \<longleftrightarrow> (\<exists>post. s = k @ post)"
proof
  assume "take (length k) s = k"
  then have "s = k @ drop (length k) s" by (metis append_take_drop_id)
  then show "\<exists>post. s = k @ post" ..
qed auto

lemma str_contains_iff: "str_contains k s \<longleftrightarrow> (\<exists>pre post. s = pre @ k @ post)"
proof (induction s)
  case Nil
  then show ?case by auto
next
  case (Cons c cs)
  have "(\<exists>pre post. c # cs = pre @ k @ post) \<longleftrightarrow>
        (\<exists>post. c # cs = k @ post) \<or> (\<exists>pre post. cs = pre @ k @ post)"
    by (auto simp: Cons_eq_append_conv)
  then show ?case using Cons.IH by (simp add: take_length_eq del: take_Suc_Cons)
qed

lemma detect_explicit_topic_change_iff:
  "detect_explicit_topic_change s \<longleftrightarrow>
   (\<exists>pre w post. s = pre @ w @ post \<and> lower w \<in> set AUTO_RESET_KEYWORDS)"
proof -
  have "(\<exists>pre post. lower s = pre @ k @ post) \<longleftrightarrow> (\<exists>pre w post. s = pre @ w @ post \<and> lower w = k)" for k
  proof
    assume "\<exists>pre post. lower s = pre @ k @ post"
    then obtain pre post where "map lower_char s = pre @ k @ post" by (auto simp: lower_def)
    then have eq: "map lower_char s = pre @ k @ post" .
    let ?w = "take (length k) (drop (length pre) s)"
    have "s = take (length pre) s @ ?w @ drop (length k) (drop (length pre) s)"
      by (simp only: append_take_drop_id)
    moreover have "map lower_char ?w = take (length k) (drop (length pre) (map lower_char s))"
      by (simp add: take_map drop_map)
    then have "lower ?w = k"
      using \<open>map lower_char s = pre @ k @ post\<close> by (simp add: lower_def)
    ultimately show "\<exists>pre w post. s = pre @ w @ post \<and> lower w = k"
      by blast
  next
    assume "\<exists>pre w post. s = pre @ w @ post \<and> lower w = k"
    then obtain pre w post where "s = pre @ w @ post" and "lower w = k" by blast
    then have "lower s = lower pre @ k @ lower post" by (auto simp: lower_def)
    then show "\<exists>pre post. lower s = pre @ k @ post" by blast
  qed
  then show ?thesis
    by (auto simp: detect_explicit_topic_change_def list_ex_iff str_contains_iff)
qed

lemma context_of_cases:
  "context_of st uid now = (c, st1) \<Longrightarrow> conversation_histories st1 uid = Some c \<and> user_topics st1 = user_topics st"
  by (auto simp: context_of_def split: option.splits)

text \<open>
  Claim C5. When a message with the role user contains a reset phrase up to case, the call
  returns the notification of the explicit reset, never the automatic one, and the context
  it leaves holds the new message only, the keywords of that message only and the reset
  time of this call: nothing of the stored history, of the tracked keywords or of their
  overlap with the new ones has an influence.
\<close>

theorem explicit_reset_clears:
  assumes "txt = pre @ w @ post" and "lower w \<in> set AUTO_RESET_KEYWORDS"
  shows "fst (add_to_conversation_history set_order st user_id ''user'' txt clk) = Some New_conversation_started \<and>
         conversation_histories (snd (add_to_conversation_history set_order st user_id ''user'' txt clk)) user_id =
           Some \<lparr>messages = [new_message ''user'' txt (Some (extract_topic_keywords set_order txt)) (t_add clk)],
                 current_topic = None,
                 topic_keywords = extract_topic_keywords set_order txt,
                 last_reset = t_clear clk\<rparr> \<and>
         user_topics (snd (add_to_conversation_history set_order st user_id ''user'' txt clk)) user_id =
           Some (extract_topic_keywords set_order txt)"
proof -
  have "detect_explicit_topic_change txt"
    using assms detect_explicit_topic_change_iff by blast
  then show ?thesis
    by (cases "conversation_histories st user_id")
       (auto simp: add_to_conversation_history_def context_of_def clear_context_def add_message_def
          new_context_def deque_append_def Let_def truthy_def MAX_HISTORY_LENGTH_def)
qed

text \<open>
  Claim C8. \<open>clear_user_context\<close> returns \<open>False\<close> for a user without a context. For a
  user with at least one stored message it returns \<open>True\<close>, and the history read next is
  empty. (It also returns \<open>True\<close> for a user whose context exists and is empty.)
\<close>

theorem clear_user_context_returns:
  "(conversation_histories st user_id = None \<longrightarrow> fst (clear_user_context st user_id now) = False) \<and>
   (conversation_histories st user_id = Some c \<and> messages c \<noteq> [] \<longrightarrow>
      fst (clear_user_context st user_id now) = True \<and>
      fst (get_conversation_history (snd (clear_user_context st user_id now)) user_id now') = [])"
  by (auto simp: clear_user_context_def get_conversation_history_def context_of_def
        tracked_keywords_def get_relevant_messages_def clear_context_def)

theorem explicit_reset_clears_witness:
  "''Ok, NEW topic please'' = ''Ok, '' @ ''NEW topic'' @ '' please'' \<and>
   lower ''NEW topic'' \<in> set AUTO_RESET_KEYWORDS \<and>
   fst (add_to_conversation_history remdups
         \<lparr>conversation_histories =
            [1 \<mapsto> \<lparr>messages = replicate 5 (new_message ''user'' ''topic please'' (Some {|''topic'', ''please''|}) 3),
                    current_topic = None, topic_keywords = {|''topic'', ''please''|}, last_reset = 0\<rparr>],
          user_topics = [1 \<mapsto> {|''topic'', ''please''|}]\<rparr>
         1 ''user'' ''Ok, NEW topic please'' \<lparr>t_init = 7, t_clear = 8, t_add = 9\<rparr>) =
     Some New_conversation_started \<and>
   conversation_histories (snd (add_to_conversation_history remdups
         \<lparr>conversation_histories =
            [1 \<mapsto> \<lparr>messages = replicate 5 (new_message ''user'' ''topic please'' (Some {|''topic'', ''please''|}) 3),
                    current_topic = None, topic_keywords = {|''topic'', ''please''|}, last_reset = 0\<rparr>],
          user_topics = [1 \<mapsto> {|''topic'', ''please''|}]\<rparr>
         1 ''user'' ''Ok, NEW topic please'' \<lparr>t_init = 7, t_clear = 8, t_add = 9\<rparr>)) 1 =
     Some \<lparr>messages = [\<lparr>role = ''user'', content = ''Ok, NEW topic please'', timestamp = 9,
                         msg_topic_keywords = {|''new'', ''topic'', ''please''|}\<rparr>],
           current_topic = None, topic_keywords = {|''new'', ''topic'', ''please''|}, last_reset = 8\<rparr>"
proof -
  have kw: "extract_topic_keywords remdups ''Ok, NEW topic please'' = {|''new'', ''topic'', ''please''|}"
    by (simp add: extract_topic_keywords_def lower_def is_upper_def is_ascii_letter_def
          is_word_char_def word_boundary_def match_letters.simps stopwords_def)
  have pre: "''Ok, NEW topic please'' = ''Ok, '' @ ''NEW topic'' @ '' please''"
    by simp
  have phrase: "lower ''NEW topic'' \<in> set AUTO_RESET_KEYWORDS"
    by (simp add: lower_def is_upper_def AUTO_RESET_KEYWORDS_def)
  show ?thesis
    using explicit_reset_clears [OF pre phrase, of remdups _ 1 "\<lparr>t_init = 7, t_clear = 8, t_add = 9\<rparr>"] phrase
    by (simp add: kw new_message_def truthy_def)
qed

theorem clear_user_context_returns_witness:
  "conversation_histories empty_store 8 = None \<and>
   fst (clear_user_context empty_store 8 2) = False \<and>
   conversation_histories
     \<lparr>conversation_histories =
        [7 \<mapsto> \<lparr>messages = [new_message ''user'' ''hello there'' (Some {|''hello'', ''there''|}) 1],
               current_topic = None, topic_keywords = {|''hello'', ''there''|}, last_reset = 0\<rparr>],
      user_topics = [7 \<mapsto> {|''hello'', ''there''|}]\<rparr> 7 =
     Some \<lparr>messages = [new_message ''user'' ''hello there'' (Some {|''hello'', ''there''|}) 1],
               current_topic = None, topic_keywords = {|''hello'', ''there''|}, last_reset = 0\<rparr> \<and>
   messages \<lparr>messages = [new_message ''user'' ''hello there'' (Some {|''hello'', ''there''|}) 1],
               current_topic = None, topic_keywords = {|''hello'', ''there''|}, last_reset = 0\<rparr> \<noteq> [] \<and>
   fst (clear_user_context
     \<lparr>conversation_histories =
        [7 \<mapsto> \<lparr>messages = [new_message ''user'' ''hello there'' (Some {|''hello'', ''there''|}) 1],
               current_topic = None, topic_keywords = {|''hello'', ''there''|}, last_reset = 0\<rparr>],
      user_topics = [7 \<mapsto> {|''hello'', ''there''|}]\<rparr> 7 2) = True \<and>
   fst (get_conversation_history (snd (clear_user_context
     \<lparr>conversation_histories =
        [7 \<mapsto> \<lparr>messages = [new_message ''user'' ''hello there'' (Some {|''hello'', ''there''|}) 1],
               current_topic = None, topic_keywords = {|''hello'', ''there''|}, last_reset = 0\<rparr>],
      user_topics = [7 \<mapsto> {|''hello'', ''there''|}]\<rparr> 7 2)) 7 3) = []"
  using clear_user_context_returns [of empty_store 8 2]
    clear_user_context_returns [of
     "\<lparr>conversation_histories =
        [7 \<mapsto> \<lparr>messages = [new_message ''user'' ''hello there'' (Some {|''hello'', ''there''|}) 1],
               current_topic = None, topic_keywords = {|''hello'', ''there''|}, last_reset = 0\<rparr>],
      user_topics = [7 \<mapsto> {|''hello'', ''there''|}]\<rparr>" 7 2
     "\<lparr>messages = [new_message ''user'' ''hello there'' (Some {|''hello'', ''there''|}) 1],
               current_topic = None, topic_keywords = {|''hello'', ''there''|}, last_reset = 0\<rparr>" 3]
  by (simp add: empty_store_def)


subsection \<open>Keyword sets\<close>

lemma fcard_fset_of_list_le: "fcard (fset_of_list xs) \<le> length xs"
  by (simp add: fcard.rep_eq fset_of_list.rep_eq card_length)

lemma fcard_extract_topic_keywords: "fcard (extract_topic_keywords set_order txt) \<le> 10"
proof -
  have "fcard (extract_topic_keywords set_order txt) \<le>
      length (take 10 (set_order [word \<leftarrow> findall_words False (lower txt). word \<notin> stopwords]))"
    unfolding extract_topic_keywords_def Let_def by (rule fcard_fset_of_list_le)
  then show ?thesis by simp
qed

lemma set_deque_append: "set (deque_append xs x) \<subseteq> insert x (set xs)"
  by (cases xs) (auto simp: deque_append_def Let_def)

lemma add_to_conversation_history_shape:
  assumes "context_of st u (t_init clk) = (c, st1)"
  shows "\<exists>c' kws. (c' = c \<or> c' = clear_context c (t_clear clk)) \<and>
           (kws = None \<or> kws = Some (extract_topic_keywords set_order t)) \<and>
           snd (add_to_conversation_history set_order st u r t clk) =
             st1\<lparr>conversation_histories :=
                   (conversation_histories st1)(u \<mapsto> add_message c' r t kws (t_add clk)),
                 user_topics := (if r = ''user''
                   then (user_topics st1)(u \<mapsto> extract_topic_keywords set_order t)
                   else user_topics st1)\<rparr>"
  unfolding add_to_conversation_history_def assms Let_def
  by (auto split: if_splits)

lemma keywords_bounded_update:
  assumes "keywords_bounded st1"
    and "\<forall>m \<in> set (messages c2). fcard (msg_topic_keywords m) \<le> 10"
    and "topics = user_topics st1 \<or> (\<exists>k. topics = (user_topics st1)(u \<mapsto> k) \<and> fcard k \<le> 10)"
  shows "keywords_bounded
     (st1\<lparr>conversation_histories := (conversation_histories st1)(u \<mapsto> c2), user_topics := topics\<rparr>)"
  using assms unfolding keywords_bounded_def by (auto split: if_splits)

lemma keywords_bounded_add:
  assumes "keywords_bounded st"
  shows "keywords_bounded (snd (add_to_conversation_history set_order st u r t clk))"
proof -
  have new: "fcard (msg_topic_keywords (new_message r t kws now)) \<le> 10"
    if "kws = None \<or> kws = Some (extract_topic_keywords set_order t)" for kws now
    using that fcard_extract_topic_keywords [of set_order t]
    by (auto simp: new_message_def truthy_def fcard_fempty)
  have step: "\<forall>m \<in> set (messages (add_message c r t kws now)). fcard (msg_topic_keywords m) \<le> 10"
    if "\<forall>m \<in> set (messages c). fcard (msg_topic_keywords m) \<le> 10"
      and "kws = None \<or> kws = Some (extract_topic_keywords set_order t)" for c kws now
    using that new [of kws now] set_deque_append [of "messages c" "new_message r t kws now"]
    by (auto simp: messages_add_message)
  obtain c st1 where ctx: "context_of st u (t_init clk) = (c, st1)"
    by (cases "context_of st u (t_init clk)")
  have c: "\<forall>m \<in> set (messages c). fcard (msg_topic_keywords m) \<le> 10"
    using assms ctx by (auto simp: context_of_def keywords_bounded_def new_context_def split: option.splits)
  have st1: "keywords_bounded st1"
    using assms ctx by (auto simp: context_of_def keywords_bounded_def new_context_def split: option.splits if_splits)
  have cleared: "\<forall>m \<in> set (messages (clear_context c now)). fcard (msg_topic_keywords m) \<le> 10" for now
    by (simp add: clear_context_def)
  obtain c' kws where c': "c' = c \<or> c' = clear_context c (t_clear clk)"
    and kws: "kws = None \<or> kws = Some (extract_topic_keywords set_order t)"
    and res: "snd (add_to_conversation_history set_order st u r t clk) =
             st1\<lparr>conversation_histories :=
                   (conversation_histories st1)(u \<mapsto> add_message c' r t kws (t_add clk)),
                 user_topics := (if r = ''user''
                   then (user_topics st1)(u \<mapsto> extract_topic_keywords set_order t)
                   else user_topics st1)\<rparr>"
    using add_to_conversation_history_shape [OF ctx] by blast
  have "\<forall>m \<in> set (messages c'). fcard (msg_topic_keywords m) \<le> 10"
    using c' c cleared by blast
  then have "\<forall>m \<in> set (messages (add_message c' r t kws (t_add clk))). fcard (msg_topic_keywords m) \<le> 10"
    using kws by (rule step)
  then show ?thesis
    unfolding res using st1 fcard_extract_topic_keywords [of set_order t]
    by (intro keywords_bounded_update) auto
qed

lemma keywords_bounded_step:
  "keywords_bounded st \<Longrightarrow> keywords_bounded (apply_operation set_order st operation)"
proof (cases operation)
  case (Get_history u now)
  assume "keywords_bounded st"
  then show ?thesis
    unfolding Get_history
    by (auto simp: get_conversation_history_def context_of_def keywords_bounded_def new_context_def
          Let_def split: option.splits if_splits)
next
  case (Add_to_history u r t clk)
  assume "keywords_bounded st"
  then show ?thesis unfolding Add_to_history by (simp add: keywords_bounded_add)
next
  case (Clear_context u now)
  assume "keywords_bounded st"
  then show ?thesis
    unfolding Clear_context
    by (auto simp: clear_user_context_def keywords_bounded_def clear_context_def
          split: option.splits if_splits)
qed

lemma keywords_bounded_run: "keywords_bounded (run_operations set_order ops)"
proof (induction ops rule: rev_induct)
  case Nil
  then show ?case by (simp add: run_operations_def keywords_bounded_def empty_store_def)
next
  case (snoc operation ops)
  then show ?case using keywords_bounded_step [of "run_operations set_order ops" set_order operation]
    by (simp add: run_operations_def)
qed

text \<open>
  Claim C7, as amended. After every sequence of calls, the keyword set tracked for a user
  (\<open>user_topics\<close>) and the keyword set stored with each message hold at most 10 entries.
  The set \<open>topic_keywords\<close> of the context itself is not bounded by 10: \<open>add_message\<close>
  adds the keywords of each user message to it, until the next reset.
\<close>

theorem tracked_keywords_bounded:
  "(\<forall>u k. user_topics (run_operations set_order ops) u = Some k \<longrightarrow> fcard k \<le> 10) \<and>
   (\<forall>u c m. conversation_histories (run_operations set_order ops) u = Some c \<and> m \<in> set (messages c) \<longrightarrow>
      fcard (msg_topic_keywords m) \<le> 10)"
  using keywords_bounded_run [of set_order ops] by (simp add: keywords_bounded_def)

lemma kw_a: "extract_topic_keywords remdups ''alpha bravo charlie delta echo foxtrot'' =
    {|''alpha'', ''bravo'', ''charlie'', ''delta'', ''echo'', ''foxtrot''|}"
  by (simp add: extract_topic_keywords_def char_classes match_letters.simps stopwords_def)

lemma kw_b: "extract_topic_keywords remdups ''golf hotel india juliet kilo lima'' =
    {|''golf'', ''hotel'', ''india'', ''juliet'', ''kilo'', ''lima''|}"
  by (simp add: extract_topic_keywords_def char_classes match_letters.simps stopwords_def)

lemmas store_defs = add_to_conversation_history_def get_conversation_history_def
  clear_user_context_def context_of_def tracked_keywords_def add_message_def truthy_def
  new_message_def new_context_def clear_context_def deque_append_def MAX_HISTORY_LENGTH_def
  empty_store_def at_time_def run_operations_def Let_def

lemma threshold_value: "TOPIC_CHANGE_THRESHOLD = 6305039478318694 / 2 ^ 53"
proof -
  have "bitlen 7 = 3" and "bitlen 10 = 4" by (simp_all add: bitlen.simps)
  then show ?thesis
    by (simp add: TOPIC_CHANGE_THRESHOLD_def double_of_frac_def round_div_def Let_def)
qed

lemma threshold_difference_exact:
  "double_of_frac 2702159776422298 (2 ^ 53) = 1 - TOPIC_CHANGE_THRESHOLD"
proof -
  have "double_of_frac 2702159776422298 (2 ^ 53) = 2702159776422298 / 2 ^ 53"
    by (simp add: double_of_frac_def round_div_def Let_def bitlen.simps)
  then show ?thesis by (simp add: threshold_value)
qed

lemma no_phrase_a: "\<not> detect_explicit_topic_change ''alpha bravo charlie delta echo foxtrot''"
  by (simp add: detect_explicit_topic_change_def AUTO_RESET_KEYWORDS_def char_classes)

lemma no_phrase_b: "\<not> detect_explicit_topic_change ''golf hotel india juliet kilo lima''"
  by (simp add: detect_explicit_topic_change_def AUTO_RESET_KEYWORDS_def char_classes)

lemma store_after_two_topics:
  "user_topics (run_operations remdups
         [Add_to_history 1 ''user'' ''alpha bravo charlie delta echo foxtrot'' (at_time 1),
          Add_to_history 1 ''user'' ''golf hotel india juliet kilo lima'' (at_time 2)]) 1 =
     Some {|''golf'', ''hotel'', ''india'', ''juliet'', ''kilo'', ''lima''|}"
proof -
  have "detect_topic_change {|''alpha'', ''bravo'', ''charlie'', ''delta'', ''echo'', ''foxtrot''|}
      {|''golf'', ''hotel'', ''india'', ''juliet'', ''kilo'', ''lima''|}"
    by (simp add: detect_topic_change_def fcard_finsert_if fcard_fempty double_of_frac_def
          threshold_value)
  then show ?thesis
    by (simp add: store_defs kw_a kw_b no_phrase_a no_phrase_b)
qed

theorem tracked_keywords_bounded_witness:
  "user_topics (run_operations remdups
         [Add_to_history 1 ''user'' ''alpha bravo charlie delta echo foxtrot'' (at_time 1),
          Add_to_history 1 ''user'' ''golf hotel india juliet kilo lima'' (at_time 2)]) 1 =
     Some {|''golf'', ''hotel'', ''india'', ''juliet'', ''kilo'', ''lima''|} \<and>
   fcard {|''golf'', ''hotel'', ''india'', ''juliet'', ''kilo'', ''lima''|} \<le> 10"
  using tracked_keywords_bounded [of remdups
         "[Add_to_history 1 ''user'' ''alpha bravo charlie delta echo foxtrot'' (at_time 1),
          Add_to_history 1 ''user'' ''golf hotel india juliet kilo lima'' (at_time 2)]"]
    store_after_two_topics
  by blast

text \<open>
  Claim C7 as stated fails: after two user messages with six keywords each, the context's
  \<open>topic_keywords\<close> holds twelve entries. (With one stored message the automatic reset
  does not fire, although the two keyword sets are disjoint.)
\<close>

theorem context_keywords_exceed_ten:
  "map_option (\<lambda>c. fcard (topic_keywords c))
     (conversation_histories
       (run_operations remdups
         [Add_to_history 1 ''user'' ''alpha bravo charlie delta echo foxtrot'' (at_time 1),
          Add_to_history 1 ''user'' ''golf hotel india juliet kilo lima'' (at_time 2)]) 1) = Some 12"
proof -
  let ?ka = "{|''alpha'', ''bravo'', ''charlie'', ''delta'', ''echo'', ''foxtrot''|}"
  let ?kb = "{|''golf'', ''hotel'', ''india'', ''juliet'', ''kilo'', ''lima''|}"
  let ?st1 = "\<lparr>conversation_histories =
      [1 \<mapsto> \<lparr>messages = [\<lparr>role = ''user'', content = ''alpha bravo charlie delta echo foxtrot'',
                              timestamp = 1, msg_topic_keywords = ?ka\<rparr>],
              current_topic = None, topic_keywords = ?ka, last_reset = 1\<rparr>],
      user_topics = [1 \<mapsto> ?ka]\<rparr>"
  have s1: "snd (add_to_conversation_history remdups empty_store 1 ''user''
      ''alpha bravo charlie delta echo foxtrot'' (at_time 1)) = ?st1"
    by (simp add: store_defs kw_a no_phrase_a)
  have "detect_topic_change ?ka ?kb"
    by (simp add: detect_topic_change_def fcard_finsert_if fcard_fempty double_of_frac_def
          threshold_value)
  then have s2: "conversation_histories (snd (add_to_conversation_history remdups ?st1 1 ''user''
      ''golf hotel india juliet kilo lima'' (at_time 2))) 1 =
      Some \<lparr>messages = [\<lparr>role = ''user'', content = ''alpha bravo charlie delta echo foxtrot'',
                              timestamp = 1, msg_topic_keywords = ?ka\<rparr>,
                          \<lparr>role = ''user'', content = ''golf hotel india juliet kilo lima'',
                              timestamp = 2, msg_topic_keywords = ?kb\<rparr>],
              current_topic = None, topic_keywords = ?ka |\<union>| ?kb, last_reset = 1\<rparr>"
    by (simp add: store_defs kw_b no_phrase_b)
  have "fcard (?ka |\<union>| ?kb) = 12"
    by (simp add: fcard_finsert_if)
  then show ?thesis
    by (simp add: run_operations_def s1 [unfolded empty_store_def] s2 empty_store_def)
qed

subsection \<open>The automatic reset\<close>

lemma automatic_reset_needs_four_messages:
  assumes "\<not> detect_explicit_topic_change t" and "length (stored_messages st u) < 4"
  shows "fst (add_to_conversation_history set_order st u ''user'' t clk) = None \<and>
         stored_messages (snd (add_to_conversation_history set_order st u ''user'' t clk)) u =
           stored_messages st u @
             [new_message ''user'' t (Some (extract_topic_keywords set_order t)) (t_add clk)]"
  using assms
  by (cases "conversation_histories st u")
     (simp_all add: stored_messages_def add_to_conversation_history_def context_of_def Let_def
        messages_add_message deque_append_def new_context_def MAX_HISTORY_LENGTH_def)

lemma automatic_reset_only_if:
  assumes "fst (add_to_conversation_history set_order st u r t clk) = Some Topic_change_detected"
  shows "r = ''user'' \<and> \<not> detect_explicit_topic_change t \<and> 4 \<le> length (stored_messages st u) \<and>
         tracked_keywords st u \<noteq> {||} \<and>
         detect_topic_change (tracked_keywords st u) (extract_topic_keywords set_order t)"
  using assms
  by (cases "conversation_histories st u")
     (auto simp: stored_messages_def add_to_conversation_history_def context_of_def Let_def
        new_context_def split: if_splits)

lemma kw_c: "extract_topic_keywords remdups ''alpha bravo charlie golf hotel india juliet'' =
    {|''alpha'', ''bravo'', ''charlie'', ''golf'', ''hotel'', ''india'', ''juliet''|}"
  by (simp add: extract_topic_keywords_def char_classes match_letters.simps stopwords_def)

lemma no_phrase_c: "\<not> detect_explicit_topic_change ''alpha bravo charlie golf hotel india juliet''"
  by (simp add: detect_explicit_topic_change_def AUTO_RESET_KEYWORDS_def char_classes)

lemma same_topic:
  "\<not> detect_topic_change {|''alpha'', ''bravo'', ''charlie'', ''delta'', ''echo'', ''foxtrot''|}
       {|''alpha'', ''bravo'', ''charlie'', ''delta'', ''echo'', ''foxtrot''|}"
proof -
  have "bitlen 6 = 3" by (simp add: bitlen.simps)
  then have "double_of_frac 6 6 = 1"
    by (simp add: double_of_frac_def round_div_def Let_def)
  moreover have "fcard {|''alpha'', ''bravo'', ''charlie'', ''delta'', ''echo'', ''foxtrot''|} = 6"
    by (simp add: fcard_finsert_if fcard_fempty)
  ultimately show ?thesis
    by (simp add: detect_topic_change_def threshold_value)
qed

lemma three_tenths: "double_of_frac 3 10 = 5404319552844595 / 2 ^ 54"
proof -
  have "bitlen 3 = 2" and "bitlen 10 = 4" by (simp_all add: bitlen.simps)
  then show ?thesis by (simp add: double_of_frac_def round_div_def Let_def)
qed

lemma boundary_topic:
  "detect_topic_change {|''alpha'', ''bravo'', ''charlie'', ''delta'', ''echo'', ''foxtrot''|}
     {|''alpha'', ''bravo'', ''charlie'', ''golf'', ''hotel'', ''india'', ''juliet''|}"
proof -
  let ?old = "{|''alpha'', ''bravo'', ''charlie'', ''delta'', ''echo'', ''foxtrot''|}"
  let ?new = "{|''alpha'', ''bravo'', ''charlie'', ''golf'', ''hotel'', ''india'', ''juliet''|}"
  have i: "fcard (?old |\<inter>| ?new) = 3" by (simp add: fcard_finsert_if fcard_fempty)
  have u: "fcard (?old |\<union>| ?new) = 10" by (simp add: fcard_finsert_if fcard_fempty)
  show ?thesis
    unfolding detect_topic_change_def Let_def i u by (simp add: three_tenths threshold_value)
qed

lemma store_after_four:
  "run_operations remdups
     [Add_to_history 1 ''user'' ''alpha bravo charlie delta echo foxtrot'' (at_time 1),
      Add_to_history 1 ''assistant'' ''fine'' (at_time 2),
      Add_to_history 1 ''user'' ''alpha bravo charlie delta echo foxtrot'' (at_time 3),
      Add_to_history 1 ''assistant'' ''fine'' (at_time 4)] =
   \<lparr>conversation_histories =
      [1 \<mapsto> \<lparr>messages =
               [\<lparr>role = ''user'', content = ''alpha bravo charlie delta echo foxtrot'', timestamp = 1,
                   msg_topic_keywords = {|''alpha'', ''bravo'', ''charlie'', ''delta'', ''echo'', ''foxtrot''|}\<rparr>,
                \<lparr>role = ''assistant'', content = ''fine'', timestamp = 2, msg_topic_keywords = {||}\<rparr>,
                \<lparr>role = ''user'', content = ''alpha bravo charlie delta echo foxtrot'', timestamp = 3,
                   msg_topic_keywords = {|''alpha'', ''bravo'', ''charlie'', ''delta'', ''echo'', ''foxtrot''|}\<rparr>,
                \<lparr>role = ''assistant'', content = ''fine'', timestamp = 4, msg_topic_keywords = {||}\<rparr>],
              current_topic = None,
              topic_keywords = {|''alpha'', ''bravo'', ''charlie'', ''delta'', ''echo'', ''foxtrot''|},
              last_reset = 1\<rparr>],
    user_topics = [1 \<mapsto> {|''alpha'', ''bravo'', ''charlie'', ''delta'', ''echo'', ''foxtrot''|}]\<rparr>"
  by (simp add: store_defs kw_a no_phrase_a same_topic finsert_absorb)

text \<open>
  Claim C6. The part on sparse history holds (\<open>automatic_reset_needs_four_messages\<close>,
  \<open>automatic_reset_only_if\<close>). The threshold does not: \<open>1 - 0.7\<close> is the binary64 number
  0.30000000000000004, and \<open>3 / 10\<close> is 0.29999999999999999, so with four stored messages
  and a similarity of exactly 3/10 (3 common keywords of 10) the automatic reset fires,
  although the similarity is not below 0.3.
\<close>

theorem automatic_reset_at_three_tenths:
  "fcard (tracked_keywords
       (run_operations remdups
         [Add_to_history 1 ''user'' ''alpha bravo charlie delta echo foxtrot'' (at_time 1),
          Add_to_history 1 ''assistant'' ''fine'' (at_time 2),
          Add_to_history 1 ''user'' ''alpha bravo charlie delta echo foxtrot'' (at_time 3),
          Add_to_history 1 ''assistant'' ''fine'' (at_time 4)]) 1 |\<inter>|
     extract_topic_keywords remdups ''alpha bravo charlie golf hotel india juliet'') = 3 \<and>
   fcard (tracked_keywords
       (run_operations remdups
         [Add_to_history 1 ''user'' ''alpha bravo charlie delta echo foxtrot'' (at_time 1),
          Add_to_history 1 ''assistant'' ''fine'' (at_time 2),
          Add_to_history 1 ''user'' ''alpha bravo charlie delta echo foxtrot'' (at_time 3),
          Add_to_history 1 ''assistant'' ''fine'' (at_time 4)]) 1 |\<union>|
     extract_topic_keywords remdups ''alpha bravo charlie golf hotel india juliet'') = 10 \<and>
   fst (add_to_conversation_history remdups
       (run_operations remdups
         [Add_to_history 1 ''user'' ''alpha bravo charlie delta echo foxtrot'' (at_time 1),
          Add_to_history 1 ''assistant'' ''fine'' (at_time 2),
          Add_to_history 1 ''user'' ''alpha bravo charlie delta echo foxtrot'' (at_time 3),
          Add_to_history 1 ''assistant'' ''fine'' (at_time 4)])
       1 ''user'' ''alpha bravo charlie golf hotel india juliet'' (at_time 5)) =
     Some Topic_change_detected \<and>
   stored_messages (snd (add_to_conversation_history remdups
       (run_operations remdups
         [Add_to_history 1 ''user'' ''alpha bravo charlie delta echo foxtrot'' (at_time 1),
          Add_to_history 1 ''assistant'' ''fine'' (at_time 2),
          Add_to_history 1 ''user'' ''alpha bravo charlie delta echo foxtrot'' (at_time 3),
          Add_to_history 1 ''assistant'' ''fine'' (at_time 4)])
       1 ''user'' ''alpha bravo charlie golf hotel india juliet'' (at_time 5))) 1 =
     [\<lparr>role = ''user'', content = ''alpha bravo charlie golf hotel india juliet'', timestamp = 5,
        msg_topic_keywords = {|''alpha'', ''bravo'', ''charlie'', ''golf'', ''hotel'', ''india'', ''juliet''|}\<rparr>]"
  unfolding store_after_four
  by (simp add: add_to_conversation_history_def context_of_def tracked_keywords_def add_message_def
        truthy_def new_message_def clear_context_def deque_append_def MAX_HISTORY_LENGTH_def
        at_time_def Let_def stored_messages_def kw_c no_phrase_c boundary_topic fcard_finsert_if fcard_fempty)

subsection \<open>The relevant history\<close>

lemma get_conversation_history_untracked:
  "tracked_keywords st u = {||} \<Longrightarrow>
   fst (get_conversation_history st u now) = map (\<lambda>m. (role m, content m)) (stored_messages st u)"
  by (cases "conversation_histories st u")
     (simp_all add: get_conversation_history_def context_of_def get_relevant_messages_def
        stored_messages_def new_context_def Let_def)

lemma list_index_nth: "distinct xs \<Longrightarrow> i < length xs \<Longrightarrow> list_index xs (xs ! i) = i"
proof (induction xs arbitrary: i)
  case Nil
  then show ?case by simp
next
  case (Cons x xs)
  show ?case
  proof (cases i)
    case 0
    then show ?thesis by (simp add: list_index_def)
  next
    case (Suc j)
    with Cons.prems have "xs ! j \<in> set xs" and "x \<notin> set xs" by auto
    then have "x \<noteq> xs ! j" by auto
    with Cons Suc show ?thesis by (simp add: list_index_def)
  qed
qed

lemma filter_by_index:
  assumes "distinct xs"
  shows "filter (\<lambda>x. Q (list_index xs x) x) xs =
         map (nth xs) (filter (\<lambda>i. Q i (xs ! i)) [0..<length xs])"
proof -
  have "filter (\<lambda>x. Q (list_index xs x) x) (map (nth xs) [0..<length xs]) =
        map (nth xs) (filter (\<lambda>i. Q (list_index xs (xs ! i)) (xs ! i)) [0..<length xs])"
    by (simp add: filter_map comp_def)
  also have "filter (\<lambda>i. Q (list_index xs (xs ! i)) (xs ! i)) [0..<length xs] =
             filter (\<lambda>i. Q i (xs ! i)) [0..<length xs]"
    using assms by (intro filter_cong) (auto simp: list_index_nth)
  finally show ?thesis by (simp add: map_nth)
qed

lemma get_relevant_messages_distinct:
  assumes "distinct (messages c)" and "current_keywords \<noteq> {||}"
  shows "get_relevant_messages c current_keywords =
         map (nth (messages c))
           (filter (\<lambda>i. length (messages c) - i \<le> 4 \<or>
                        msg_topic_keywords (messages c ! i) |\<inter>| current_keywords \<noteq> {||})
              [0..<length (messages c)])"
proof -
  have card: "0 < fcard k \<longleftrightarrow> k \<noteq> {||}" for k :: "string fset"
    by (metis fcard_fempty fcard_0_eq gr0I less_numeral_extra(3))
  have "get_relevant_messages c current_keywords =
        filter (\<lambda>msg. length (messages c) - list_index (messages c) msg \<le> 4 \<or>
                      msg_topic_keywords msg |\<inter>| current_keywords \<noteq> {||}) (messages c)"
    using assms(2) by (auto simp: get_relevant_messages_def card intro!: filter_cong)
  then show ?thesis
    using filter_by_index [OF assms(1),
        of "\<lambda>i msg. length (messages c) - i \<le> 4 \<or> msg_topic_keywords msg |\<inter>| current_keywords \<noteq> {||}"]
    by simp
qed

lemma kw_ok: "extract_topic_keywords remdups ''ok!'' = {||}"
  by (simp add: extract_topic_keywords_def char_classes match_letters.simps stopwords_def)
lemma kw_cats: "extract_topic_keywords remdups ''cats rule'' = {|''cats'', ''rule''|}"
  by (simp add: extract_topic_keywords_def char_classes match_letters.simps stopwords_def)
lemma kw_dogs: "extract_topic_keywords remdups ''dogs rule'' = {|''dogs'', ''rule''|}"
  by (simp add: extract_topic_keywords_def char_classes match_letters.simps stopwords_def)
lemma no_phrase_ok: "\<not> detect_explicit_topic_change ''ok!''"
  by (simp add: detect_explicit_topic_change_def AUTO_RESET_KEYWORDS_def char_classes)
lemma no_phrase_cats: "\<not> detect_explicit_topic_change ''cats rule''"
  by (simp add: detect_explicit_topic_change_def AUTO_RESET_KEYWORDS_def char_classes)
lemma no_phrase_dogs: "\<not> detect_explicit_topic_change ''dogs rule''"
  by (simp add: detect_explicit_topic_change_def AUTO_RESET_KEYWORDS_def char_classes)

lemma related_topic: "\<not> detect_topic_change {|''cats'', ''rule''|} {|''dogs'', ''rule''|}"
proof -
  have "bitlen 1 = 1" and "bitlen 3 = 2" by (simp_all add: bitlen.simps)
  then have "double_of_frac 1 3 = 6004799503160661 / 2 ^ 54"
    by (simp add: double_of_frac_def round_div_def Let_def)
  moreover have "fcard ({|''cats'', ''rule''|} |\<inter>| {|''dogs'', ''rule''|}) = 1"
    and "fcard ({|''cats'', ''rule''|} |\<union>| {|''dogs'', ''rule''|}) = 3"
    by (simp_all add: fcard_finsert_if fcard_fempty)
  ultimately show ?thesis
    unfolding detect_topic_change_def Let_def by (simp add: threshold_value)
qed

lemma store_with_equal_messages:
  "run_operations remdups
     [Add_to_history 1 ''user'' ''ok!'' (at_time 5),
      Add_to_history 1 ''user'' ''ok!'' (at_time 5),
      Add_to_history 1 ''user'' ''cats rule'' (at_time 6),
      Add_to_history 1 ''assistant'' ''fine'' (at_time 7),
      Add_to_history 1 ''user'' ''dogs rule'' (at_time 8)] =
   \<lparr>conversation_histories =
      [1 \<mapsto> \<lparr>messages =
               [\<lparr>role = ''user'', content = ''ok!'', timestamp = 5, msg_topic_keywords = {||}\<rparr>,
                \<lparr>role = ''user'', content = ''ok!'', timestamp = 5, msg_topic_keywords = {||}\<rparr>,
                \<lparr>role = ''user'', content = ''cats rule'', timestamp = 6,
                   msg_topic_keywords = {|''cats'', ''rule''|}\<rparr>,
                \<lparr>role = ''assistant'', content = ''fine'', timestamp = 7, msg_topic_keywords = {||}\<rparr>,
                \<lparr>role = ''user'', content = ''dogs rule'', timestamp = 8,
                   msg_topic_keywords = {|''dogs'', ''rule''|}\<rparr>],
              current_topic = None,
              topic_keywords = {|''dogs'', ''cats'', ''rule''|},
              last_reset = 5\<rparr>],
    user_topics = [1 \<mapsto> {|''dogs'', ''rule''|}]\<rparr>"
  by (simp add: store_defs kw_ok kw_cats kw_dogs no_phrase_ok no_phrase_cats no_phrase_dogs
        related_topic finsert_absorb)

text \<open>
  Claim C2. Without tracked keywords the whole history is returned
  (\<open>get_conversation_history_untracked\<close>), and with tracked keywords the selection is the
  one claimed when the stored messages are pairwise different
  (\<open>get_relevant_messages_distinct\<close>). \<open>list.index\<close> finds the first message equal to
  the one at hand, so a recent message that equals an older one (same role, content,
  timestamp and keywords) is taken for the older one: here five messages are stored, the
  first two equal, and the second, one of the most recent four, is not returned.
\<close>

theorem recent_equal_message_dropped:
  "fst (get_conversation_history
     (run_operations remdups
       [Add_to_history 1 ''user'' ''ok!'' (at_time 5),
        Add_to_history 1 ''user'' ''ok!'' (at_time 5),
        Add_to_history 1 ''user'' ''cats rule'' (at_time 6),
        Add_to_history 1 ''assistant'' ''fine'' (at_time 7),
        Add_to_history 1 ''user'' ''dogs rule'' (at_time 8)]) 1 9) =
   [(''user'', ''cats rule''), (''assistant'', ''fine''), (''user'', ''dogs rule'')]"
  unfolding store_with_equal_messages
  by (simp add: get_conversation_history_def context_of_def tracked_keywords_def
        get_relevant_messages_def list_index_def fcard_finsert_if fcard_fempty)

section \<open>Properties of the keyword extraction\<close>

lemma letter_is_word: "is_ascii_letter c \<Longrightarrow> is_word_char c"
  by (auto simp: is_ascii_letter_def is_word_char_def Let_def)

lemma match_inside_run:
  assumes word: "\<And>c. P c \<Longrightarrow> is_word_char c" and "m < length (takeWhile P s)"
  shows "match_letters s m = None"
  using assms(2)
proof (induction m)
  case 0
  then show ?case by (simp add: match_letters.simps)
next
  case (Suc m)
  let ?n = "length (takeWhile P s)"
  have le: "?n \<le> length s" by (rule length_takeWhile_le)
  have inside: "P (s ! i)" if "i < ?n" for i
    using that by (metis nth_mem set_takeWhileD takeWhile_nth)
  from Suc.prems have "Suc m < length s" using le by simp
  then have "drop (Suc m) s = s ! Suc m # drop (Suc (Suc m)) s"
    by (simp add: Cons_nth_drop_Suc)
  moreover have "is_word_char (s ! Suc m)" and "is_word_char (s ! m)"
    using inside [of "Suc m"] inside [of m] Suc.prems by (simp_all add: word)
  ultimately have "\<not> word_boundary (is_word_char (s ! (Suc m - 1))) (drop (Suc m) s)"
    by (simp add: word_boundary_def)
  moreover have "match_letters s m = None" using Suc by simp
  ultimately show ?case by (subst match_letters.simps) simp
qed

lemma match_whole_run:
  assumes word: "\<And>c. P c \<Longrightarrow> is_word_char c"
  shows "match_letters s (length (takeWhile P s)) =
     (if 3 \<le> length (takeWhile P s) \<and> word_boundary True (dropWhile P s)
      then Some (length (takeWhile P s)) else None)"
proof -
  let ?n = "length (takeWhile P s)"
  show ?thesis
  proof (cases "3 \<le> ?n")
    case False
    then show ?thesis by (subst match_letters.simps) simp
  next
    case True
    then have lt: "?n - 1 < ?n" by linarith
    then have "P (s ! (?n - 1))"
      by (metis nth_mem set_takeWhileD takeWhile_nth)
    then have w: "is_word_char (s ! (?n - 1))" by (rule word)
    have inside: "match_letters s (?n - 1) = None"
      using word lt by (rule match_inside_run)
    show ?thesis
      using True w inside
      by (subst match_letters.simps) (simp add: dropWhile_eq_drop)
  qed
qed


lemma match_letters_run:
  "match_letters s (length (takeWhile is_ascii_letter s)) =
     (if 3 \<le> length (takeWhile is_ascii_letter s) \<and> word_boundary True (dropWhile is_ascii_letter s)
      then Some (length (takeWhile is_ascii_letter s)) else None)"
  by (rule match_whole_run) (rule letter_is_word)

lemma findall_words_after_word:
  "findall_words True s = findall_words False (dropWhile is_word_char s)"
proof (induction s)
  case Nil
  then show ?case by simp
next
  case (Cons c cs)
  show ?case
  proof (cases "is_word_char c")
    case True
    then show ?thesis using Cons.IH by (simp add: word_boundary_def)
  next
    case False
    then have "\<not> is_ascii_letter c" using letter_is_word by blast
    then have "match_letters (c # cs) (length (takeWhile is_ascii_letter (c # cs))) = None"
      by (simp add: match_letters.simps)
    with False show ?thesis by (simp add: word_boundary_def)
  qed
qed

lemma run_is_token:
  assumes "word_boundary True (dropWhile is_ascii_letter s)"
  shows "takeWhile is_word_char s = takeWhile is_ascii_letter s"
    and "dropWhile is_word_char s = dropWhile is_ascii_letter s"
  using assms by (induction s) (auto simp: word_boundary_def letter_is_word split: if_splits)

lemma token_not_alphabetic:
  assumes "\<not> word_boundary True (dropWhile is_ascii_letter s)"
  shows "\<not> list_all is_ascii_letter (takeWhile is_word_char s)"
  using assms by (induction s) (auto simp: word_boundary_def letter_is_word split: if_splits)

lemma findall_words_step:
  "findall_words p (c # cs) =
     (if word_boundary p (c # cs) then
        (case match_letters (c # cs) (length (takeWhile is_ascii_letter (c # cs))) of
           Some n \<Rightarrow> take n (c # cs) #
                     findall_words (is_word_char ((c # cs) ! (n - 1))) (drop n (c # cs))
         | None \<Rightarrow> findall_words (is_word_char c) cs)
      else findall_words (is_word_char c) cs)"
  by (rule findall_words.simps)

lemma findall_words_tokens:
  "findall_words False s = filter alphabetic_token (spec_tokens s)"
proof (induction s rule: spec_tokens.induct)
  case 1
  then show ?case by simp
next
  case (2 c cs)
  define s where "s = c # cs"
  define n where "n = length (takeWhile is_ascii_letter s)"
  show ?case
  proof (cases "is_word_char c")
    case False
    then show ?thesis using 2 by (simp add: word_boundary_def)
  next
    case True
    have rest: "findall_words False (dropWhile is_word_char cs) =
        filter alphabetic_token (spec_tokens (dropWhile is_word_char cs))"
      using 2 True by simp
    have start: "word_boundary False (c # cs)" using True by (simp add: word_boundary_def)
    have dw: "dropWhile is_word_char s = dropWhile is_word_char cs"
      using True by (simp add: s_def)
    have spec: "spec_tokens (c # cs) =
        takeWhile is_word_char s # spec_tokens (dropWhile is_word_char cs)"
      using True by (simp add: s_def)
    have run: "match_letters s n =
        (if 3 \<le> n \<and> word_boundary True (dropWhile is_ascii_letter s) then Some n else None)"
      unfolding n_def by (rule match_letters_run)
    have step: "findall_words False (c # cs) =
        (case match_letters s n of
           Some k \<Rightarrow> take k s # findall_words (is_word_char (s ! (k - 1))) (drop k s)
         | None \<Rightarrow> findall_words True cs)"
      unfolding s_def n_def using start True
      by (simp only: findall_words_step if_True)
    show ?thesis
    proof (cases "3 \<le> n \<and> word_boundary True (dropWhile is_ascii_letter s)")
      case match: True
      then have tok: "takeWhile is_word_char s = takeWhile is_ascii_letter s"
        and dr: "dropWhile is_word_char s = dropWhile is_ascii_letter s"
        by (simp_all only: run_is_token)
      have "n - 1 < length (takeWhile is_ascii_letter s)"
        using match unfolding n_def by linarith
      then have "is_ascii_letter (s ! (n - 1))"
        by (metis nth_mem set_takeWhileD takeWhile_nth)
      then have w: "is_word_char (s ! (n - 1))" by (rule letter_is_word)
      have "list_all is_ascii_letter (takeWhile is_ascii_letter s)"
        by (auto simp: list_all_iff dest: set_takeWhileD)
      then have alpha: "alphabetic_token (takeWhile is_word_char s)"
        unfolding tok alphabetic_token_def using match by (simp add: n_def)
      have "findall_words False (c # cs) = take n s # findall_words True (drop n s)"
        unfolding step run using match w by simp
      also have "take n s = takeWhile is_word_char s"
        unfolding tok n_def by (simp only: takeWhile_eq_take [symmetric])
      also have "drop n s = dropWhile is_word_char cs"
        unfolding n_def using dr dw by (simp only: dropWhile_eq_drop [symmetric])
      also have "findall_words True (dropWhile is_word_char cs) =
          findall_words False (dropWhile is_word_char cs)"
        by (simp only: findall_words_after_word dropWhile_idem)
      finally show ?thesis
        unfolding spec using rest alpha by (simp del: findall_words.simps)
    next
      case nomatch: False
      then have "match_letters s n = None"
        unfolding run by (simp only: if_False)
      then have "findall_words False (c # cs) = findall_words True cs"
        unfolding step by (simp only: option.case)
      also have "\<dots> = findall_words False (dropWhile is_word_char cs)"
        by (rule findall_words_after_word)
      finally have lhs: "findall_words False (c # cs) =
          filter alphabetic_token (spec_tokens (dropWhile is_word_char cs))"
        using rest by (simp only:)
      have "\<not> alphabetic_token (takeWhile is_word_char s)"
      proof (cases "word_boundary True (dropWhile is_ascii_letter s)")
        case True
        then have "takeWhile is_word_char s = takeWhile is_ascii_letter s"
          by (simp only: run_is_token)
        with nomatch True show ?thesis by (simp add: alphabetic_token_def n_def)
      next
        case False
        then show ?thesis using token_not_alphabetic [of s] by (simp add: alphabetic_token_def)
      qed
      with lhs show ?thesis unfolding spec by (simp del: findall_words.simps)
    qed
  qed
qed

lemma keywords_list:
  "[word \<leftarrow> findall_words False (lower text). word \<notin> stopwords] = spec_keywords text"
  by (simp add: findall_words_tokens spec_keywords_def)

text \<open>
  Claim C3, as amended. The text is lower-cased, and the words the scan finds are exactly
  the alphabetic tokens of at least three letters (\<open>findall_words_tokens\<close>). For every
  iteration order of the set, the keywords returned are among those tokens that are not
  stopwords, and there are 10 of them or all, whichever is less: all of them when at most
  10 are distinct. When more than 10 are distinct, which 10 are kept follows the iteration
  order of the set, not the order of appearance, so the result is the same for two runs
  only under the same iteration order.
\<close>

theorem keywords_as_specified:
  assumes "iteration_order set_order"
  shows "fset (extract_topic_keywords set_order text) \<subseteq> set (spec_keywords text) \<and>
         fcard (extract_topic_keywords set_order text) = min 10 (card (set (spec_keywords text))) \<and>
         (card (set (spec_keywords text)) \<le> 10 \<longrightarrow>
            fset (extract_topic_keywords set_order text) = set (spec_keywords text))"
proof -
  let ?ks = "spec_keywords text"
  let ?xs = "set_order ?ks"
  have ex: "extract_topic_keywords set_order text = fset_of_list (take 10 ?xs)"
    by (simp add: extract_topic_keywords_def Let_def keywords_list)
  have set: "set ?xs = set ?ks" and dist: "distinct ?xs"
    using assms by (simp_all add: iteration_order_def)
  have len: "length ?xs = card (set ?ks)"
    using dist set by (metis distinct_card)
  have sub: "fset (extract_topic_keywords set_order text) \<subseteq> set ?ks"
    unfolding ex using set by (auto simp: fset_of_list.rep_eq dest: in_set_takeD)
  have "card (set (take 10 ?xs)) = length (take 10 ?xs)"
    using dist by (intro distinct_card) simp
  then have card: "fcard (extract_topic_keywords set_order text) = min 10 (card (set ?ks))"
    unfolding ex by (simp add: fcard.rep_eq fset_of_list.rep_eq len min.commute)
  have all: "fset (extract_topic_keywords set_order text) = set ?ks" if "card (set ?ks) \<le> 10"
    unfolding ex using that len set by (simp add: fset_of_list.rep_eq)
  show ?thesis using sub card all by blast
qed

lemma iteration_order_remdups: "iteration_order remdups"
  by (simp add: iteration_order_def)

lemma iteration_order_seed0: "iteration_order seed0_order"
  by (auto simp: iteration_order_def seed0_order_def)

lemma words_hello:
  "findall_words False (lower ''Hello, the WORLD of abc123 cats'') =
     [''hello'', ''the'', ''world'', ''cats'']"
  by (simp add: char_classes match_letters.simps)

theorem keywords_as_specified_witness:
  "iteration_order remdups \<and>
   spec_keywords ''Hello, the WORLD of abc123 cats'' = [''hello'', ''world'', ''cats''] \<and>
   fset (extract_topic_keywords remdups ''Hello, the WORLD of abc123 cats'') =
     {''hello'', ''world'', ''cats''} \<and>
   fcard (extract_topic_keywords remdups ''Hello, the WORLD of abc123 cats'') = 3"
proof -
  have ks: "spec_keywords ''Hello, the WORLD of abc123 cats'' = [''hello'', ''world'', ''cats'']"
    unfolding keywords_list [symmetric] words_hello by (simp add: stopwords_def)
  show ?thesis
    using keywords_as_specified [OF iteration_order_remdups, of "''Hello, the WORLD of abc123 cats''"]
      iteration_order_remdups
    unfolding ks by simp
qed

lemma words_animals:
  "findall_words False (lower ''ant bee cat dog eel fox gnu hen jay koi owl'') =
     [''ant'', ''bee'', ''cat'', ''dog'', ''eel'', ''fox'', ''gnu'', ''hen'', ''jay'', ''koi'', ''owl'']"
  by (simp add: char_classes match_letters.simps)

text \<open>
  Claim C3 as stated fails: of eleven keywords, the ten kept under the iteration order of
  hash seed 0 leave out the fourth, \<open>dog\<close>, and hold the eleventh, \<open>owl\<close>; under another
  order the same text yields another set.
\<close>

theorem first_ten_not_kept:
  "iteration_order seed0_order \<and>
   take 10 (spec_keywords ''ant bee cat dog eel fox gnu hen jay koi owl'') =
     [''ant'', ''bee'', ''cat'', ''dog'', ''eel'', ''fox'', ''gnu'', ''hen'', ''jay'', ''koi''] \<and>
   extract_topic_keywords seed0_order ''ant bee cat dog eel fox gnu hen jay koi owl'' =
     {|''cat'', ''bee'', ''ant'', ''fox'', ''gnu'', ''owl'', ''eel'', ''koi'', ''jay'', ''hen''|} \<and>
   ''dog'' |\<notin>| extract_topic_keywords seed0_order ''ant bee cat dog eel fox gnu hen jay koi owl'' \<and>
   extract_topic_keywords remdups ''ant bee cat dog eel fox gnu hen jay koi owl'' \<noteq>
     extract_topic_keywords seed0_order ''ant bee cat dog eel fox gnu hen jay koi owl''"
proof -
  have ks: "[word \<leftarrow> findall_words False (lower ''ant bee cat dog eel fox gnu hen jay koi owl'').
        word \<notin> stopwords] =
      [''ant'', ''bee'', ''cat'', ''dog'', ''eel'', ''fox'', ''gnu'', ''hen'', ''jay'', ''koi'', ''owl'']"
    unfolding words_animals by (simp add: stopwords_def)
  have seed: "extract_topic_keywords seed0_order ''ant bee cat dog eel fox gnu hen jay koi owl'' =
      {|''cat'', ''bee'', ''ant'', ''fox'', ''gnu'', ''owl'', ''eel'', ''koi'', ''jay'', ''hen''|}"
    unfolding extract_topic_keywords_def Let_def ks by (simp add: seed0_order_def)
  have ins: "extract_topic_keywords remdups ''ant bee cat dog eel fox gnu hen jay koi owl'' =
      {|''ant'', ''bee'', ''cat'', ''dog'', ''eel'', ''fox'', ''gnu'', ''hen'', ''jay'', ''koi''|}"
    unfolding extract_topic_keywords_def Let_def ks by simp
  have dog: "''dog'' |\<notin>| {|''cat'', ''bee'', ''ant'', ''fox'', ''gnu'', ''owl'', ''eel'', ''koi'', ''jay'', ''hen''|}"
    by simp
  have diff: "{|''ant'', ''bee'', ''cat'', ''dog'', ''eel'', ''fox'', ''gnu'', ''hen'', ''jay'', ''koi''|} \<noteq>
      {|''cat'', ''bee'', ''ant'', ''fox'', ''gnu'', ''owl'', ''eel'', ''koi'', ''jay'', ''hen''|}"
  proof
    assume "{|''ant'', ''bee'', ''cat'', ''dog'', ''eel'', ''fox'', ''gnu'', ''hen'', ''jay'', ''koi''|} =
      {|''cat'', ''bee'', ''ant'', ''fox'', ''gnu'', ''owl'', ''eel'', ''koi'', ''jay'', ''hen''|}"
    then have "''dog'' |\<in>| {|''cat'', ''bee'', ''ant'', ''fox'', ''gnu'', ''owl'', ''eel'', ''koi'', ''jay'', ''hen''|}"
      by (metis finsertI1 finsertI2)
    with dog show False by blast
  qed
  show ?thesis
    unfolding seed ins keywords_list [symmetric] ks
    using iteration_order_seed0 dog diff by simp
qed

section \<open>Properties of the validation\<close>

lemma lower_a: "lower_char c = CHR ''a'' \<longleftrightarrow> c = CHR ''a'' \<or> c = CHR ''A''"
  by (cases c) (auto simp: is_upper_def split: if_splits)

lemma lower_1: "lower_char c = CHR ''1'' \<longleftrightarrow> c = CHR ''1''"
  by (cases c) (auto simp: is_upper_def split: if_splits)

lemma lower_s: "lower_char c = CHR ''s'' \<longleftrightarrow> c = CHR ''s'' \<or> c = CHR ''S''"
  by (cases c) (auto simp: is_upper_def split: if_splits)

lemma lower_t: "lower_char c = CHR ''t'' \<longleftrightarrow> c = CHR ''t'' \<or> c = CHR ''T''"
  by (cases c) (auto simp: is_upper_def split: if_splits)

lemma lower_m: "lower_char c = CHR ''m'' \<longleftrightarrow> c = CHR ''m'' \<or> c = CHR ''M''"
  by (cases c) (auto simp: is_upper_def split: if_splits)

lemma lower_word:
  "lower_char c \<in> {CHR ''a'', CHR ''1'', CHR ''s'', CHR ''t'', CHR ''m''} \<Longrightarrow> is_word_char c"
  by (auto simp: lower_a lower_1 lower_s lower_t lower_m is_word_char_def)

lemma boundary_after: "word_boundary True post \<longleftrightarrow> post = [] \<or> \<not> is_word_char (hd post)"
  by (cases post) (simp_all add: word_boundary_def)

lemma whitespace_only_iff: "s = [] \<or> strip s = [] \<longleftrightarrow> (\<forall>c \<in> set s. is_space c)"
proof (induction s)
  case Nil
  then show ?case by simp
next
  case (Cons c cs)
  show ?case
  proof (cases "is_space c")
    case True
    then have "strip (c # cs) = strip cs" by (simp add: strip_def)
    moreover have "strip [] = []" by (simp add: strip_def)
    ultimately show ?thesis using Cons True by (cases cs) simp_all
  next
    case False
    then have "c \<in> set (rev (dropWhile is_space (c # cs)))" and "\<not> is_space c" by simp_all
    then have "dropWhile is_space (rev (dropWhile is_space (c # cs))) \<noteq> []"
      unfolding dropWhile_eq_Nil_conv by blast
    then have "strip (c # cs) \<noteq> []" by (simp only: strip_def rev_is_Nil_conv not_False_eq_True)
    with False show ?thesis by simp
  qed
qed

lemma normalize_no_space:
  assumes "s \<noteq> []" and "\<forall>c \<in> set s. \<not> is_space c"
  shows "normalize s = s"
proof -
  obtain c cs where s: "s = c # cs" using assms(1) by (cases s) auto
  have "rev s \<noteq> []" and "\<forall>c \<in> set (rev s). \<not> is_space c" using assms by simp_all
  then have "dropWhile is_space (rev s) = rev s"
    by (cases "rev s") simp_all
  moreover have "dropWhile is_space s = s" using assms s by simp
  ultimately have strip: "strip s = s" by (simp add: strip_def)
  have "takeWhile (\<lambda>d. \<not> is_space d) cs = cs" and "dropWhile (\<lambda>d. \<not> is_space d) cs = []"
    using assms(2) s by (simp_all add: takeWhile_eq_all_conv)
  then have "split (c # cs) = [c # cs]" using assms(2) s by (simp del: dropWhile_eq_Nil_conv)
  then have sp: "split s = [s]" by (simp only: s)
  show ?thesis unfolding normalize_def strip sp by simp
qed

lemma replicate_21: "replicate 21 c @ post = c # replicate 20 c @ post"
proof -
  have "replicate 21 c = replicate (Suc 20) c" by simp
  then show ?thesis by (simp only: replicate_Suc append_Cons)
qed

lemma run_of_equal:
  "20 \<le> length (takeWhile (\<lambda>d. d = c) cs) \<longleftrightarrow> (\<exists>post. cs = replicate 20 c @ post)"
proof
  assume len: "20 \<le> length (takeWhile (\<lambda>d. d = c) cs)"
  let ?run = "takeWhile (\<lambda>d. d = c) cs"
  have "?run = replicate (length ?run) c"
    by (intro replicate_eqI) (auto dest: set_takeWhileD)
  also have "\<dots> = replicate 20 c @ replicate (length ?run - 20) c"
    using len by (simp add: replicate_add [symmetric])
  finally have "?run @ dropWhile (\<lambda>d. d = c) cs =
      (replicate 20 c @ replicate (length ?run - 20) c) @ dropWhile (\<lambda>d. d = c) cs"
    by (rule arg_cong [where f = "\<lambda>xs. xs @ dropWhile (\<lambda>d. d = c) cs"])
  then have "cs = replicate 20 c @ replicate (length ?run - 20) c @ dropWhile (\<lambda>d. d = c) cs"
    by (simp only: takeWhile_dropWhile_id append.assoc)
  then show "\<exists>post. cs = replicate 20 c @ post" ..
next
  assume "\<exists>post. cs = replicate 20 c @ post"
  then obtain post where cs: "cs = replicate 20 c @ post" ..
  have "takeWhile (\<lambda>d. d = c) (replicate 20 c @ post) =
      replicate 20 c @ takeWhile (\<lambda>d. d = c) post"
    by (rule takeWhile_append2) simp
  then show "20 \<le> length (takeWhile (\<lambda>d. d = c) cs)" unfolding cs by simp
qed

lemma search_repeated_iff: "search_repeated s \<longleftrightarrow> has_long_run s"
proof (induction s)
  case Nil
  then show ?case by (simp add: has_long_run_def)
next
  case (Cons c cs)
  have unfold: "has_long_run (c # cs) \<longleftrightarrow>
      (c \<noteq> CHR 0x0A \<and> (\<exists>post. cs = replicate 20 c @ post)) \<or> has_long_run cs"
  proof
    assume "has_long_run (c # cs)"
    then obtain pre d post where eq: "c # cs = pre @ replicate 21 d @ post" and d: "d \<noteq> CHR 0x0A"
      unfolding has_long_run_def by blast
    show "(c \<noteq> CHR 0x0A \<and> (\<exists>post. cs = replicate 20 c @ post)) \<or> has_long_run cs"
    proof (cases pre)
      case Nil
      with eq have "c # cs = d # replicate 20 d @ post" by (simp only: replicate_21 append_Nil)
      then have "c = d" and "cs = replicate 20 c @ post" by simp_all
      with d show ?thesis by blast
    next
      case (Cons p pre')
      with eq have "cs = pre' @ replicate 21 d @ post" by simp
      with d show ?thesis unfolding has_long_run_def by blast
    qed
  next
    assume "(c \<noteq> CHR 0x0A \<and> (\<exists>post. cs = replicate 20 c @ post)) \<or> has_long_run cs"
    then show "has_long_run (c # cs)"
    proof
      assume "c \<noteq> CHR 0x0A \<and> (\<exists>post. cs = replicate 20 c @ post)"
      then obtain post where c: "c \<noteq> CHR 0x0A" and "cs = replicate 20 c @ post" by blast
      then have "c # cs = [] @ replicate 21 c @ post" by (simp only: replicate_21 append_Nil)
      with c show ?thesis unfolding has_long_run_def by blast
    next
      assume "has_long_run cs"
      then obtain pre d post where "cs = pre @ replicate 21 d @ post" and d: "d \<noteq> CHR 0x0A"
        unfolding has_long_run_def by blast
      then have "c # cs = (c # pre) @ replicate 21 d @ post" by simp
      with d show ?thesis unfolding has_long_run_def by blast
    qed
  qed
  show ?case unfolding unfold using Cons.IH by (simp add: run_of_equal)
qed

lemma length_lower [simp]: "length (lower w) = length w"
  by (simp add: lower_def)

lemma lower_append: "lower (u @ v) = lower u @ lower v"
  by (simp add: lower_def)

lemma literal_match:
  "literal_ci p s \<and> word_boundary True (drop (length p) s) \<longleftrightarrow>
   (\<exists>w post. s = w @ post \<and> lower w = p \<and> (post = [] \<or> \<not> is_word_char (hd post)))"
proof
  assume l: "literal_ci p s \<and> word_boundary True (drop (length p) s)"
  then have "take (length p) s @ drop (length p) s = s"
    and "lower (take (length p) s) = p"
    and "drop (length p) s = [] \<or> \<not> is_word_char (hd (drop (length p) s))"
    by (simp_all add: literal_ci_def lower_def boundary_after)
  then show "\<exists>w post. s = w @ post \<and> lower w = p \<and> (post = [] \<or> \<not> is_word_char (hd post))"
    by metis
next
  assume "\<exists>w post. s = w @ post \<and> lower w = p \<and> (post = [] \<or> \<not> is_word_char (hd post))"
  then obtain w post where s: "s = w @ post" and w: "lower w = p"
    and post: "post = [] \<or> \<not> is_word_char (hd post)" by blast
  from w have len: "length p = length w" by (metis length_lower)
  have "take (length w) (w @ post) = w" and "drop (length w) (w @ post) = post" by simp_all
  then show "literal_ci p s \<and> word_boundary True (drop (length p) s)"
    unfolding s literal_ci_def len boundary_after using w post by (simp add: lower_def)
qed

lemma run_match:
  assumes word: "\<And>c. lower_char c = d \<Longrightarrow> is_word_char c"
  shows "match_letters s (length (takeWhile (\<lambda>c. lower_char c = d) s)) \<noteq> None \<longleftrightarrow>
   (\<exists>w post. s = w @ post \<and> 3 \<le> length w \<and> lower w = replicate (length w) d \<and>
      (post = [] \<or> \<not> is_word_char (hd post)))"
proof -
  let ?P = "\<lambda>c. lower_char c = d"
  let ?w = "takeWhile ?P s" and ?post = "dropWhile ?P s"
  have run: "match_letters s (length ?w) \<noteq> None \<longleftrightarrow>
      3 \<le> length ?w \<and> (?post = [] \<or> \<not> is_word_char (hd ?post))"
    using match_whole_run [of ?P s] word by (simp add: boundary_after)
  show ?thesis
  proof
    assume "match_letters s (length ?w) \<noteq> None"
    then have "3 \<le> length ?w" and "?post = [] \<or> \<not> is_word_char (hd ?post)"
      using run by blast+
    moreover have "lower ?w = replicate (length ?w) d"
      unfolding lower_def by (intro replicate_eqI) (auto dest: set_takeWhileD)
    moreover have "s = ?w @ ?post" by simp
    ultimately show "\<exists>w post. s = w @ post \<and> 3 \<le> length w \<and> lower w = replicate (length w) d \<and>
      (post = [] \<or> \<not> is_word_char (hd post))" by blast
  next
    assume "\<exists>w post. s = w @ post \<and> 3 \<le> length w \<and> lower w = replicate (length w) d \<and>
      (post = [] \<or> \<not> is_word_char (hd post))"
    then obtain w post where s: "s = w @ post" and len: "3 \<le> length w"
      and w: "lower w = replicate (length w) d"
      and post: "post = [] \<or> \<not> is_word_char (hd post)" by blast
    have all: "lower_char c = d" if "c \<in> set w" for c
    proof -
      from that have "lower_char c \<in> set (lower w)" by (simp add: lower_def)
      then show ?thesis unfolding w by simp
    qed
    have "takeWhile ?P post = []" and "dropWhile ?P post = post"
      using post word by (cases post; auto)+
    moreover have "takeWhile ?P (w @ post) = w @ takeWhile ?P post"
      and "dropWhile ?P (w @ post) = dropWhile ?P post"
      using all by (simp_all add: takeWhile_append2 dropWhile_append2)
    ultimately have "takeWhile ?P (w @ post) = w" and "dropWhile ?P (w @ post) = post"
      by simp_all
    then show "match_letters s (length ?w) \<noteq> None"
      unfolding run unfolding s using len post by (simp only:)
  qed
qed

lemma low_content_head:
  assumes "low_content (lower w)"
  shows "w \<noteq> [] \<and> is_word_char (hd w)"
proof (cases w)
  case Nil
  with assms show ?thesis by (simp add: low_content_def lower_def)
next
  case (Cons c cs)
  have "lower_char c \<in> {CHR ''a'', CHR ''1'', CHR ''s'', CHR ''t'', CHR ''m''}"
    using assms unfolding Cons low_content_def lower_def
    by (auto simp: Cons_replicate_eq)
  then show ?thesis using Cons by (simp add: lower_word)
qed

lemma alternatives_match:
  "(literal_ci ''spam'' s \<and> word_boundary True (drop 4 s)) \<or>
   (literal_ci ''test'' s \<and> word_boundary True (drop 4 s)) \<or>
   match_letters s (length (takeWhile (\<lambda>c. lower_char c = CHR ''a'') s)) \<noteq> None \<or>
   match_letters s (length (takeWhile (\<lambda>c. lower_char c = CHR ''1'') s)) \<noteq> None \<longleftrightarrow>
   (\<exists>w post. s = w @ post \<and> low_content (lower w) \<and> (post = [] \<or> \<not> is_word_char (hd post)))"
proof -
  have l4: "length ''spam'' = 4" "length ''test'' = 4" by simp_all
  have spam: "literal_ci ''spam'' s \<and> word_boundary True (drop 4 s) \<longleftrightarrow>
      (\<exists>w post. s = w @ post \<and> lower w = ''spam'' \<and> (post = [] \<or> \<not> is_word_char (hd post)))"
    using literal_match [of "''spam''" s] unfolding l4 .
  have test: "literal_ci ''test'' s \<and> word_boundary True (drop 4 s) \<longleftrightarrow>
      (\<exists>w post. s = w @ post \<and> lower w = ''test'' \<and> (post = [] \<or> \<not> is_word_char (hd post)))"
    using literal_match [of "''test''" s] unfolding l4 .
  have a: "match_letters s (length (takeWhile (\<lambda>c. lower_char c = CHR ''a'') s)) \<noteq> None \<longleftrightarrow>
      (\<exists>w post. s = w @ post \<and> 3 \<le> length w \<and> lower w = replicate (length w) CHR ''a'' \<and>
        (post = [] \<or> \<not> is_word_char (hd post)))"
    by (rule run_match) (simp add: lower_word)
  have one: "match_letters s (length (takeWhile (\<lambda>c. lower_char c = CHR ''1'') s)) \<noteq> None \<longleftrightarrow>
      (\<exists>w post. s = w @ post \<and> 3 \<le> length w \<and> lower w = replicate (length w) CHR ''1'' \<and>
        (post = [] \<or> \<not> is_word_char (hd post)))"
    by (rule run_match) (simp add: lower_word)
  show ?thesis
    unfolding spam test a one low_content_def length_lower by blast
qed

lemma match_low_content_iff:
  "match_low_content p s \<longleftrightarrow>
   \<not> p \<and> (\<exists>w post. s = w @ post \<and> low_content (lower w) \<and> (post = [] \<or> \<not> is_word_char (hd post)))"
proof -
  have "word_boundary p s \<longleftrightarrow> \<not> p"
    if "\<exists>w post. s = w @ post \<and> low_content (lower w) \<and> (post = [] \<or> \<not> is_word_char (hd post))"
  proof -
    from that obtain w post where s: "s = w @ post" and "low_content (lower w)" by blast
    then have "w \<noteq> []" and "is_word_char (hd w)" using low_content_head by blast+
    then show ?thesis unfolding s by (cases w) (simp_all add: word_boundary_def)
  qed
  then show ?thesis
    unfolding match_low_content_def alternatives_match by blast
qed

lemma search_low_content_iff:
  "search_low_content p s \<longleftrightarrow>
   (\<exists>pre w post. s = pre @ w @ post \<and> low_content (lower w) \<and>
      (if pre = [] then \<not> p else \<not> is_word_char (last pre)) \<and>
      (post = [] \<or> \<not> is_word_char (hd post)))"
proof (induction s arbitrary: p)
  case Nil
  have "\<not> low_content (lower [])" by (simp add: low_content_def lower_def)
  then show ?case by simp
next
  case (Cons c cs)
  let ?E = "\<lambda>post. post = [] \<or> \<not> is_word_char (hd post)"
  let ?B = "\<lambda>p pre. if pre = [] then \<not> p else \<not> is_word_char (last pre)"
  have "(\<exists>pre w post. c # cs = pre @ w @ post \<and> low_content (lower w) \<and> ?B p pre \<and> ?E post) \<longleftrightarrow>
        (\<not> p \<and> (\<exists>w post. c # cs = w @ post \<and> low_content (lower w) \<and> ?E post)) \<or>
        (\<exists>pre w post. cs = pre @ w @ post \<and> low_content (lower w) \<and> ?B (is_word_char c) pre \<and> ?E post)"
    (is "?L \<longleftrightarrow> ?M \<or> ?R")
  proof
    assume ?L
    then obtain pre w post where eq: "c # cs = pre @ w @ post" and low: "low_content (lower w)"
      and b: "?B p pre" and e: "?E post" by blast
    show "?M \<or> ?R"
    proof (cases pre)
      case Nil
      with eq low b e show ?thesis by auto
    next
      case (Cons q pre')
      with eq have "q = c" and cs: "cs = pre' @ w @ post" by simp_all
      with b Cons have "?B (is_word_char c) pre'" by (cases "pre' = []") simp_all
      with cs low e show ?thesis by blast
    qed
  next
    assume "?M \<or> ?R"
    then show ?L
    proof
      assume ?M
      then obtain w post where "c # cs = [] @ w @ post" and "low_content (lower w)"
        and "?B p []" and "?E post" by auto
      then show ?L by blast
    next
      assume ?R
      then obtain pre w post where cs: "cs = pre @ w @ post" and low: "low_content (lower w)"
        and b: "?B (is_word_char c) pre" and e: "?E post" by blast
      from b have "?B p (c # pre)" by (cases "pre = []") simp_all
      moreover from cs have "c # cs = (c # pre) @ w @ post" by simp
      ultimately show ?L using low e by blast
    qed
  qed
  then show ?case
    using Cons.IH [of "is_word_char c"] by (simp only: search_low_content.simps match_low_content_iff)
qed

lemma search_low_content_spec: "search_low_content False s \<longleftrightarrow> has_low_content_word s"
  unfolding search_low_content_iff has_low_content_word_def
  by (intro ex_cong1 conj_cong refl) auto

lemmas validation_defs = validate_and_sanitize_input_def normalize_def strip_def is_space_def
  match_low_content_def literal_ci_def is_upper_def is_ascii_letter_def is_word_char_def
  word_boundary_def lower_def match_letters.simps Let_def

text \<open>
  Claim C9, as amended. The conditions are read on the whitespace-normalized text, and the
  low-content words are the four the pattern names. An input is rejected exactly when: it
  is empty or whitespace only (message on the empty input); or its normalized form is
  longer than the maximum (message with the two lengths); or the normalized form has
  fewer than 3 characters; or the normalized form holds a run of 21 equal characters, or
  is shorter than 20 characters and holds one of the words \<open>spam\<close>, \<open>test\<close>, three or more
  \<open>a\<close>, three or more \<open>1\<close>, in either case of the letters and between word boundaries.
  Every other input is accepted with its normalized form. An input of 4096 characters
  without whitespace is rejected with the message on the length.
\<close>

theorem validation_result:
  "validate_and_sanitize_input text max_length =
     (if \<forall>c \<in> set text. is_space c then (False, [], Empty_input)
      else if max_length < length (normalize text)
        then (False, [], Input_too_long max_length (length (normalize text)))
      else if length (normalize text) < 3 then (False, [], Input_too_short)
      else if has_long_run (normalize text) \<or>
              (length (normalize text) < 20 \<and> has_low_content_word (normalize text))
        then (False, [], Invalid_input)
      else (True, normalize text, No_error)) \<and>
   (length text = 4096 \<and> (\<forall>c \<in> set text. \<not> is_space c) \<longrightarrow>
      validate_and_sanitize_input text 4000 = (False, [], Input_too_long 4000 4096))"
proof -
  have general: "validate_and_sanitize_input text n =
     (if \<forall>c \<in> set text. is_space c then (False, [], Empty_input)
      else if n < length (normalize text) then (False, [], Input_too_long n (length (normalize text)))
      else if length (normalize text) < 3 then (False, [], Input_too_short)
      else if has_long_run (normalize text) \<or>
              (length (normalize text) < 20 \<and> has_low_content_word (normalize text))
        then (False, [], Invalid_input)
      else (True, normalize text, No_error))" for n
    unfolding validate_and_sanitize_input_def whitespace_only_iff Let_def
      search_repeated_iff search_low_content_spec
    by auto
  have "validate_and_sanitize_input text 4000 = (False, [], Input_too_long 4000 4096)"
    if len: "length text = 4096" and ns: "\<forall>c \<in> set text. \<not> is_space c"
  proof -
    from len have ne: "text \<noteq> []" by auto
    then have "normalize text = text" using ns by (rule normalize_no_space)
    moreover have "\<not> (\<forall>c \<in> set text. is_space c)" using ne ns by (cases "text") auto
    ultimately show ?thesis using len by (simp add: general)
  qed
  with general show ?thesis by blast
qed

theorem validation_result_witness:
  "length (replicate 4096 CHR ''x'') = 4096 \<and> \<not> is_space CHR ''x'' \<and>
   validate_and_sanitize_input (replicate 4096 CHR ''x'') 4000 = (False, [], Input_too_long 4000 4096) \<and>
   validate_and_sanitize_input ''aaaaa'' 4000 = (False, [], Invalid_input) \<and>
   validate_and_sanitize_input ''  Please summarise the  main ideas of this long text. '' 4000 =
     (True, ''Please summarise the main ideas of this long text.'', No_error)"
proof -
  have x: "length (replicate 4096 CHR ''x'') = 4096 \<and> (\<forall>c \<in> set (replicate 4096 CHR ''x''). \<not> is_space c)"
    by (simp add: is_space_def)
  have a: "validate_and_sanitize_input ''aaaaa'' 4000 = (False, [], Invalid_input)"
    by (simp add: validation_defs)
  have s: "validate_and_sanitize_input ''  Please summarise the  main ideas of this long text. '' 4000 =
     (True, ''Please summarise the main ideas of this long text.'', No_error)"
    by (simp add: validation_defs)
  have nx: "\<not> is_space CHR ''x''"
    by (simp add: is_space_def)
  show ?thesis
    using validation_result [of "replicate 4096 CHR ''x''" 4000] x nx a s by blast
qed

text \<open>
  Claim C9 as stated fails: an input shorter than 20 characters that is a run of a repeated
  letter other than \<open>a\<close> is accepted.
\<close>

theorem repeated_letters_accepted:
  "validate_and_sanitize_input ''bbbbb'' 4000 = (True, ''bbbbb'', No_error)"
  by (simp add: validation_defs)

section \<open>Properties of the retry loop\<close>

lemma begin_attempt_fields [simp]:
  "retry_count (begin_attempt set_order clocks j s) = retry_count s"
  "result (begin_attempt set_order clocks j s) = result s"
  "trace (begin_attempt set_order clocks j s) = trace s @ [Api_call]"
  "length (requests (begin_attempt set_order clocks j s)) = Suc (length (requests s))"
  by (simp_all add: begin_attempt_def Let_def split_def)

lemma backoff_fields [simp]:
  "retry_count (backoff j s) = retry_count s"
  "result (backoff j s) = result s"
  "trace (backoff j s) = trace s @ [Sleep (2 ^ retry_count s)] @ notice j (retry_count s + 1)"
  "requests (backoff j s) = requests s"
  by (simp_all add: backoff_def notice_def)

lemma initial_state_fields [simp]:
  "retry_count (initial_state st j) = 0"
  "result (initial_state st j) = None"
  "trace (initial_state st j) = []"
  "requests (initial_state st j) = []"
  by (simp_all add: initial_state_def)

lemma loop_done:
  "\<not> (retry_count s < max_retries \<and> result s = None) \<Longrightarrow>
   retry_loop set_order api clocks j s = Some (Inr s)"
  by (subst retry_loop.simps) auto

lemma loop_returns:
  "retry_count s < max_retries \<Longrightarrow> result s = None \<Longrightarrow> api (length (requests s)) = Returns r \<Longrightarrow>
   retry_loop set_order api clocks j s =
     retry_loop set_order api clocks j ((begin_attempt set_order clocks j s)\<lparr>result := r\<rparr>)"
  by (subst retry_loop.simps) simp

lemma loop_retries:
  "retry_count s + 1 < max_retries \<Longrightarrow> result s = None \<Longrightarrow> api (length (requests s)) = Raises e \<Longrightarrow>
   retry_loop set_order api clocks j s =
     retry_loop set_order api clocks j
       (backoff j ((begin_attempt set_order clocks j s)\<lparr>retry_count := retry_count s + 1\<rparr>))"
  by (subst retry_loop.simps) simp

lemma loop_raises:
  "retry_count s + 1 = max_retries \<Longrightarrow> result s = None \<Longrightarrow> api (length (requests s)) = Raises e \<Longrightarrow>
   retry_loop set_order api clocks j s =
     Some (Inl (e, (begin_attempt set_order clocks j s)\<lparr>retry_count := retry_count s + 1\<rparr>))"
  by (subst retry_loop.simps) simp

lemmas loop_steps = loop_retries loop_returns loop_raises loop_done max_retries_def observe_def
  numeral_2_eq_2 numeral_3_eq_3

text \<open>
  Claim C1, as amended. For a job whose completion calls raise or return a result other
  than \<open>None\<close>: the call is made at most 3 times. After the k-th failed attempt, k = 1, 2,
  the worker sleeps \<open>2 ^ k\<close> seconds and then, when the update of the job has a message, sends
  the notice "attempt k+1/3" once, before the next call; without a message there is no
  notice. Two failures and a success give the result with the sleeps 2 and 4; a third
  failure is raised to the handler around the loop, with no sleep, notice or call after it.
  (\<open>notice j k\<close> is the one notice when \<open>job_has_message j\<close>, and nothing otherwise.)
\<close>

theorem retry_policy:
  "(api 0 = Returns (Some r) \<longrightarrow>
      observe (retry_loop set_order api clocks j (initial_state st j)) =
        Some (Inr (Some r), [Api_call], 1)) \<and>
   (api 0 = Raises e1 \<and> api 1 = Returns (Some r) \<longrightarrow>
      observe (retry_loop set_order api clocks j (initial_state st j)) =
        Some (Inr (Some r), [Api_call, Sleep 2] @ notice j 2 @ [Api_call], 2)) \<and>
   (api 0 = Raises e1 \<and> api 1 = Raises e2 \<and> api 2 = Returns (Some r) \<longrightarrow>
      observe (retry_loop set_order api clocks j (initial_state st j)) =
        Some (Inr (Some r),
              [Api_call, Sleep 2] @ notice j 2 @ [Api_call, Sleep 4] @ notice j 3 @ [Api_call], 3)) \<and>
   (api 0 = Raises e1 \<and> api 1 = Raises e2 \<and> api 2 = Raises e3 \<longrightarrow>
      observe (retry_loop set_order api clocks j (initial_state st j)) =
        Some (Inl e3,
              [Api_call, Sleep 2] @ notice j 2 @ [Api_call, Sleep 4] @ notice j 3 @ [Api_call], 3)) \<and>
   ((\<forall>n<3. api n \<noteq> Returns None) \<longrightarrow>
      (\<exists>out events calls. observe (retry_loop set_order api clocks j (initial_state st j)) =
          Some (out, events, calls) \<and> calls \<le> 3))"
proof -
  let ?run = "observe (retry_loop set_order api clocks j (initial_state st j))"
  have one: "?run = Some (Inr (Some r), [Api_call], 1)" if "api 0 = Returns (Some r)" for r
    using that by (simp add: loop_steps)
  have two: "?run = Some (Inr (Some r), [Api_call, Sleep 2] @ notice j 2 @ [Api_call], 2)"
    if "api 0 = Raises e1" and "api 1 = Returns (Some r)" for e1 r
    using that by (simp add: loop_steps)
  have three: "?run = Some (Inr (Some r),
      [Api_call, Sleep 2] @ notice j 2 @ [Api_call, Sleep 4] @ notice j 3 @ [Api_call], 3)"
    if "api 0 = Raises e1" and "api 1 = Raises e2" and "api 2 = Returns (Some r)" for e1 e2 r
    using that by (simp add: loop_steps)
  have fail: "?run = Some (Inl e3,
      [Api_call, Sleep 2] @ notice j 2 @ [Api_call, Sleep 4] @ notice j 3 @ [Api_call], 3)"
    if "api 0 = Raises e1" and "api 1 = Raises e2" and "api 2 = Raises e3" for e1 e2 e3
    using that by (simp add: loop_steps)
  have bound: "\<exists>out events calls. ?run = Some (out, events, calls) \<and> calls \<le> 3"
    if none: "\<forall>n<3. api n \<noteq> Returns None"
  proof -
    have cases: "(\<exists>e. api n = Raises e) \<or> (\<exists>r. api n = Returns (Some r))" if "n < 3" for n
      using none that by (cases "api n") auto
    consider r where "api 0 = Returns (Some r)"
      | e1 r where "api 0 = Raises e1" "api 1 = Returns (Some r)"
      | e1 e2 r where "api 0 = Raises e1" "api 1 = Raises e2" "api 2 = Returns (Some r)"
      | e1 e2 e3 where "api 0 = Raises e1" "api 1 = Raises e2" "api 2 = Raises e3"
      using cases [of 0] cases [of 1] cases [of 2] by auto
    then show ?thesis
    proof cases
      case 1
      then show ?thesis using one by simp
    next
      case 2
      then show ?thesis using two by simp
    next
      case 3
      then show ?thesis using three by simp
    next
      case 4
      then show ?thesis using fail by simp
    qed
  qed
  show ?thesis using one two three fail bound by blast
qed

theorem retry_policy_witness:
  "observe (retry_loop remdups
      (\<lambda>n. if n < 2 then Raises ''timeout'' else Returns (Some (Text ''hello'')))
      (\<lambda>n. at_time (real n))
      \<lparr>job_user_id = 1, job_has_message = True, job_prompt = ''hello there'', job_tools = []\<rparr>
      (initial_state empty_store
        \<lparr>job_user_id = 1, job_has_message = True, job_prompt = ''hello there'', job_tools = []\<rparr>)) =
   Some (Inr (Some (Text ''hello'')),
         [Api_call, Sleep 2, Reply_retrying 2 3, Api_call, Sleep 4, Reply_retrying 3 3, Api_call], 3)"
  using retry_policy [of "\<lambda>n. if n < 2 then Raises ''timeout'' else Returns (Some (Text ''hello''))"
      "Text ''hello''" remdups "\<lambda>n. at_time (real n)"
      "\<lparr>job_user_id = 1, job_has_message = True, job_prompt = ''hello there'', job_tools = []\<rparr>"
      empty_store "''timeout''" "''timeout''"]
  by (simp add: notice_def max_retries_def)

text \<open>
  Claim C1 as stated fails for a job whose update has no message (the loop guards the reply
  with \<open>if job.update.message\<close>): two failures and a success give two sleeps and no notice.
\<close>

theorem no_notice_without_message:
  "observe (retry_loop remdups
      (\<lambda>n. if n < 2 then Raises ''timeout'' else Returns (Some (Text ''hello'')))
      (\<lambda>n. at_time (real n))
      \<lparr>job_user_id = 1, job_has_message = False, job_prompt = ''hello there'', job_tools = []\<rparr>
      (initial_state empty_store
        \<lparr>job_user_id = 1, job_has_message = False, job_prompt = ''hello there'', job_tools = []\<rparr>)) =
   Some (Inr (Some (Text ''hello'')), [Api_call, Sleep 2, Api_call, Sleep 4, Api_call], 3)"
  by (simp add: loop_steps notice_def)

text \<open>
  A call that returns \<open>None\<close> without raising leaves \<open>retry_count\<close> as it is and
  \<open>result\<close> at \<open>None\<close>, so the loop calls again at once: such results are not counted
  against the three attempts, and while they last the loop does not end.
\<close>

lemma none_results_are_not_counted:
  assumes "retry_count s < max_retries" and "result s = None"
    and "\<forall>n<k. api (length (requests s) + n) = Returns None"
    and "api (length (requests s) + k) = Returns (Some r)"
  shows "observe (retry_loop set_order api clocks j s) =
     Some (Inr (Some r), trace s @ replicate (Suc k) Api_call, length (requests s) + Suc k)"
  using assms
proof (induction k arbitrary: s)
  case 0
  then show ?case by (simp add: loop_returns loop_done observe_def)
next
  case (Suc k)
  let ?s = "(begin_attempt set_order clocks j s)\<lparr>result := None\<rparr>"
  from Suc.prems have first: "api (length (requests s)) = Returns None" by force
  have step: "retry_loop set_order api clocks j s = retry_loop set_order api clocks j ?s"
    using Suc.prems(1,2) first by (rule loop_returns)
  have "observe (retry_loop set_order api clocks j ?s) =
     Some (Inr (Some r), trace ?s @ replicate (Suc k) Api_call, length (requests ?s) + Suc k)"
  proof (rule Suc.IH)
    show "\<forall>n<k. api (length (requests ?s) + n) = Returns None"
      using Suc.prems(3) by (auto dest: spec [of _ "Suc _"])
    show "api (length (requests ?s) + k) = Returns (Some r)"
      using Suc.prems(4) by simp
  qed (use Suc.prems in simp_all)
  then show ?case by (simp add: step replicate_append_same)
qed

lemma five_calls:
  "observe (retry_loop remdups
      (\<lambda>n. if n < 4 then Returns None else Returns (Some (Text ''late'')))
      (\<lambda>n. at_time (real n))
      \<lparr>job_user_id = 1, job_has_message = True, job_prompt = ''hello there'', job_tools = []\<rparr>
      (initial_state empty_store
        \<lparr>job_user_id = 1, job_has_message = True, job_prompt = ''hello there'', job_tools = []\<rparr>)) =
   Some (Inr (Some (Text ''late'')), [Api_call, Api_call, Api_call, Api_call, Api_call], 5)"
  using none_results_are_not_counted [of
      "initial_state empty_store
        \<lparr>job_user_id = 1, job_has_message = True, job_prompt = ''hello there'', job_tools = []\<rparr>"
      4 "\<lambda>n. if n < 4 then Returns None else Returns (Some (Text ''late''))" "Text ''late''"]
  by (simp add: max_retries_def numeral_eq_Suc)

lemma none_results_never_end:
  assumes "\<forall>n. api n = Returns None" and "retry_count s < max_retries" and "result s = None"
  shows "retry_loop set_order api clocks j s = None"
proof (rule ccontr)
  assume "retry_loop set_order api clocks j s \<noteq> None"
  then obtain out where run: "retry_loop set_order api clocks j s = Some out" by auto
  have "\<not> (retry_count s < max_retries \<and> result s = None) \<or> (\<exists>n. api n \<noteq> Returns None)"
  proof (rule retry_loop.raw_induct
      [where P = "\<lambda>set_order api clocks j s out.
         \<not> (retry_count s < max_retries \<and> result s = None) \<or> (\<exists>n. api n \<noteq> Returns None)",
       OF _ run])
    fix loop set_order' api' clocks' j' s' out'
    assume IH: "\<And>set_order api clocks j s out. loop set_order api clocks j s = Some out \<Longrightarrow>
        \<not> (retry_count s < max_retries \<and> result s = None) \<or> (\<exists>n. api n \<noteq> Returns None)"
      and body: "(if retry_count s' < max_retries \<and> result s' = None
         then case api' (length (requests s')) of
           Raises api_error \<Rightarrow>
             if retry_count s' + 1 < max_retries
             then loop set_order' api' clocks' j'
                   (backoff j' ((begin_attempt set_order' clocks' j' s')\<lparr>retry_count := retry_count s' + 1\<rparr>))
             else Some (Inl (api_error,
                     (begin_attempt set_order' clocks' j' s')\<lparr>retry_count := retry_count s' + 1\<rparr>))
         | Returns r \<Rightarrow>
             loop set_order' api' clocks' j' ((begin_attempt set_order' clocks' j' s')\<lparr>result := r\<rparr>)
         else Some (Inr s')) = Some out'"
    show "\<not> (retry_count s' < max_retries \<and> result s' = None) \<or> (\<exists>n. api' n \<noteq> Returns None)"
    proof (rule ccontr)
      assume "\<not> ?thesis"
      then have s: "retry_count s' < max_retries" "result s' = None" and api: "\<forall>n. api' n = Returns None"
        by auto
      let ?s = "(begin_attempt set_order' clocks' j' s')\<lparr>result := None\<rparr>"
      from body s api have "loop set_order' api' clocks' j' ?s = Some out'" by simp
      then have "\<not> (retry_count ?s < max_retries \<and> result ?s = None) \<or> (\<exists>n. api' n \<noteq> Returns None)"
        by (rule IH)
      with s api show False by simp
    qed
  qed
  with assms show False by auto
qed

subsection \<open>The prompt in the history\<close>

lemma round_div_multiple: "0 < n \<Longrightarrow> round_div (n * k) n = k"
  by (simp add: round_div_def Let_def)

lemma double_of_frac_same: "0 < n \<Longrightarrow> double_of_frac n n = 1"
  by (simp add: double_of_frac_def Let_def round_div_multiple)

lemma detect_topic_change_same: "\<not> detect_topic_change k k"
proof (cases "k = {||}")
  case True
  then show ?thesis by (simp add: detect_topic_change_def)
next
  case False
  then have "0 < fcard k" by (metis fcard_0_eq gr0I)
  then show ?thesis
    by (simp add: detect_topic_change_def Let_def double_of_frac_same threshold_value)
qed

lemma explicit_reset_result:
  assumes "detect_explicit_topic_change t"
  shows "fst (add_to_conversation_history set_order st u ''user'' t clk) = Some New_conversation_started \<and>
         conversation_histories (snd (add_to_conversation_history set_order st u ''user'' t clk)) u =
           Some \<lparr>messages = [new_message ''user'' t (Some (extract_topic_keywords set_order t)) (t_add clk)],
                 current_topic = None,
                 topic_keywords = extract_topic_keywords set_order t,
                 last_reset = t_clear clk\<rparr> \<and>
         user_topics (snd (add_to_conversation_history set_order st u ''user'' t clk)) u =
           Some (extract_topic_keywords set_order t)"
  using assms
  by (cases "conversation_histories st u")
     (auto simp: add_to_conversation_history_def context_of_def clear_context_def add_message_def
        new_context_def deque_append_def Let_def truthy_def MAX_HISTORY_LENGTH_def)

lemma add_after_get:
  "add_to_conversation_history set_order (snd (get_conversation_history st u (t_init clk))) u r t clk =
   add_to_conversation_history set_order st u r t clk"
  by (cases "conversation_histories st u")
     (simp_all add: add_to_conversation_history_def get_conversation_history_def context_of_def
        tracked_keywords_def Let_def)

lemma begin_attempt_store:
  assumes "Builtin ''image_generation'' \<notin> set (job_tools j)"
  shows "wstore (begin_attempt set_order clocks j s) =
           snd (add_to_conversation_history set_order (wstore s) (job_user_id j) ''user'' (job_prompt j)
                  (clocks (length (requests s))))"
    and "context_reset_message (begin_attempt set_order clocks j s) =
           fst (add_to_conversation_history set_order (wstore s) (job_user_id j) ''user'' (job_prompt j)
                  (clocks (length (requests s))))"
  using assms add_after_get [of set_order "wstore s" "job_user_id j" "clocks (length (requests s))"]
  by (simp_all add: begin_attempt_def Let_def split_def)

lemma deque_append_keeps:
  assumes "length ys < MAX_HISTORY_LENGTH"
  shows "\<exists>xs'. deque_append (xs @ ys) m = xs' @ ys @ [m]"
proof (cases "MAX_HISTORY_LENGTH < length (xs @ ys @ [m])")
  case True
  with assms have "xs \<noteq> []" by auto
  then have "tl (xs @ ys @ [m]) = tl xs @ ys @ [m]" by simp
  with True show ?thesis by (auto simp: deque_append_def Let_def)
next
  case False
  then show ?thesis by (auto simp: deque_append_def Let_def)
qed

lemma first_append:
  "tracked_keywords (snd (add_to_conversation_history set_order st u ''user'' t clk)) u =
     extract_topic_keywords set_order t \<and>
   (\<exists>xs. stored_messages (snd (add_to_conversation_history set_order st u ''user'' t clk)) u =
      xs @ [new_message ''user'' t (Some (extract_topic_keywords set_order t)) (t_add clk)])"
proof -
  obtain c st1 where ctx: "context_of st u (t_init clk) = (c, st1)"
    by (cases "context_of st u (t_init clk)")
  have "\<exists>xs. deque_append zs m = xs @ [m]" for zs :: "message list" and m
    using deque_append_keeps [of "[]" zs m] by (simp add: MAX_HISTORY_LENGTH_def)
  then show ?thesis
    unfolding add_to_conversation_history_def ctx Let_def
    by (auto simp: tracked_keywords_def stored_messages_def messages_add_message split: if_splits)
qed

lemma append_again:
  assumes "tracked_keywords st u = extract_topic_keywords set_order t"
    and "stored_messages st u = xs @ ys" and "ys \<noteq> []" and "length ys < MAX_HISTORY_LENGTH"
    and "\<not> detect_explicit_topic_change t"
  shows "fst (add_to_conversation_history set_order st u ''user'' t clk) = None \<and>
         tracked_keywords (snd (add_to_conversation_history set_order st u ''user'' t clk)) u =
           extract_topic_keywords set_order t \<and>
         (\<exists>xs'. stored_messages (snd (add_to_conversation_history set_order st u ''user'' t clk)) u =
            xs' @ ys @ [new_message ''user'' t (Some (extract_topic_keywords set_order t)) (t_add clk)])"
proof -
  from assms(2,3) obtain c where c: "conversation_histories st u = Some c" "messages c = xs @ ys"
    by (cases "conversation_histories st u") (auto simp: stored_messages_def)
  show ?thesis
    using assms(1,5) c deque_append_keeps [OF assms(4), of xs]
    by (simp add: add_to_conversation_history_def context_of_def Let_def detect_topic_change_same
          tracked_keywords_def stored_messages_def messages_add_message)
qed

lemma backoff_store [simp]:
  "wstore (backoff j s) = wstore s"
  "context_reset_message (backoff j s) = context_reset_message s"
  by (simp_all add: backoff_def)

lemma initial_state_store [simp]: "wstore (initial_state st j) = st"
  by (simp add: initial_state_def)

text \<open>
  Claim C10, as amended. For a job that does not generate an image, every attempt appends
  the prompt, and the notification the loop ends with is the one of the last attempt. When
  the prompt holds no reset phrase, k failures and a success leave k + 1 copies of the
  prompt as the newest messages of the history, and the notification is \<open>None\<close>, whatever
  the first attempt had returned. When the prompt holds a reset phrase, every attempt
  clears the context: the history is one copy of the prompt, and the notification is the
  explicit one.
\<close>

theorem prompt_appended_on_every_attempt:
  assumes "Builtin ''image_generation'' \<notin> set (job_tools j)"
  shows
  "(api 0 = Raises e1 \<and> api 1 = Returns (Some r) \<longrightarrow>
      (\<exists>s. retry_loop set_order api clocks j (initial_state st j) = Some (Inr s) \<and>
           length (requests s) = 2 \<and>
           (\<not> detect_explicit_topic_change (job_prompt j) \<longrightarrow>
              context_reset_message s = None \<and>
              (\<exists>older. stored_messages (wstore s) (job_user_id j) =
                 older @ [prompt_message set_order clocks j 0, prompt_message set_order clocks j 1])) \<and>
           (detect_explicit_topic_change (job_prompt j) \<longrightarrow>
              context_reset_message s = Some New_conversation_started \<and>
              stored_messages (wstore s) (job_user_id j) = [prompt_message set_order clocks j 1]))) \<and>
   (api 0 = Raises e1 \<and> api 1 = Raises e2 \<and> api 2 = Returns (Some r) \<longrightarrow>
      (\<exists>s. retry_loop set_order api clocks j (initial_state st j) = Some (Inr s) \<and>
           length (requests s) = 3 \<and>
           (\<not> detect_explicit_topic_change (job_prompt j) \<longrightarrow>
              context_reset_message s = None \<and>
              (\<exists>older. stored_messages (wstore s) (job_user_id j) =
                 older @ [prompt_message set_order clocks j 0, prompt_message set_order clocks j 1,
                          prompt_message set_order clocks j 2])) \<and>
           (detect_explicit_topic_change (job_prompt j) \<longrightarrow>
              context_reset_message s = Some New_conversation_started \<and>
              stored_messages (wstore s) (job_user_id j) = [prompt_message set_order clocks j 2])))"
proof -
  let ?u = "job_user_id j" and ?p = "job_prompt j"
  let ?A = "\<lambda>st n. add_to_conversation_history set_order st ?u ''user'' ?p (clocks n)"
  let ?m = "prompt_message set_order clocks j"
  let ?kw = "extract_topic_keywords set_order ?p"
  let ?st1 = "snd (?A st 0)"
  let ?st2 = "snd (?A ?st1 1)"
  let ?st3 = "snd (?A ?st2 2)"
  note store = begin_attempt_store [OF assms]
  have explicit: "fst (?A st' n) = Some New_conversation_started \<and> stored_messages (snd (?A st' n)) ?u = [?m n]"
    if "detect_explicit_topic_change ?p" for st' n
    using explicit_reset_result [OF that, of set_order st' ?u "clocks n"]
    by (simp add: stored_messages_def prompt_message_def)
  obtain xs where st1: "tracked_keywords ?st1 ?u = ?kw" "stored_messages ?st1 ?u = xs @ [?m 0]"
    using first_append [of set_order st ?u ?p "clocks 0"] by (auto simp: prompt_message_def)
  have second: "fst (?A ?st1 1) = None \<and> tracked_keywords ?st2 ?u = ?kw \<and>
      (\<exists>older. stored_messages ?st2 ?u = older @ [?m 0, ?m 1])"
    if "\<not> detect_explicit_topic_change ?p"
    using append_again [OF st1, of "clocks 1"] that
    by (simp add: MAX_HISTORY_LENGTH_def prompt_message_def)
  have third: "fst (?A ?st2 2) = None \<and> (\<exists>older. stored_messages ?st3 ?u = older @ [?m 0, ?m 1, ?m 2])"
    if no: "\<not> detect_explicit_topic_change ?p"
  proof -
    from second [OF no] obtain ys where st2: "tracked_keywords ?st2 ?u = ?kw"
      "stored_messages ?st2 ?u = ys @ [?m 0, ?m 1]" by auto
    show ?thesis
      using append_again [OF st2, of "clocks 2"] no
      by (simp add: MAX_HISTORY_LENGTH_def prompt_message_def)
  qed
  have once: "retry_loop set_order api clocks j (initial_state st j) =
      Some (Inr ((begin_attempt set_order clocks j
        (backoff j ((begin_attempt set_order clocks j (initial_state st j))\<lparr>retry_count := 1\<rparr>)))
          \<lparr>result := Some r\<rparr>))"
    if "api 0 = Raises e1" "api 1 = Returns (Some r)"
    using that by (simp add: loop_retries loop_returns loop_done max_retries_def)
  have twice: "retry_loop set_order api clocks j (initial_state st j) =
      Some (Inr ((begin_attempt set_order clocks j
        (backoff j ((begin_attempt set_order clocks j
          (backoff j ((begin_attempt set_order clocks j (initial_state st j))\<lparr>retry_count := 1\<rparr>)))
            \<lparr>retry_count := 2\<rparr>)))
          \<lparr>result := Some r\<rparr>))"
    if "api 0 = Raises e1" "api 1 = Raises e2" "api 2 = Returns (Some r)"
    using that by (simp add: loop_retries loop_returns loop_done max_retries_def numeral_2_eq_2)
  show ?thesis
  proof (intro conjI impI)
    assume "api 0 = Raises e1 \<and> api 1 = Returns (Some r)"
    then show "\<exists>s. retry_loop set_order api clocks j (initial_state st j) = Some (Inr s) \<and>
           length (requests s) = 2 \<and>
           (\<not> detect_explicit_topic_change ?p \<longrightarrow>
              context_reset_message s = None \<and>
              (\<exists>older. stored_messages (wstore s) ?u = older @ [?m 0, ?m 1])) \<and>
           (detect_explicit_topic_change ?p \<longrightarrow>
              context_reset_message s = Some New_conversation_started \<and>
              stored_messages (wstore s) ?u = [?m 1])"
      using once second explicit [of ?st1 1] by (simp add: store)
  next
    assume "api 0 = Raises e1 \<and> api 1 = Raises e2 \<and> api 2 = Returns (Some r)"
    then show "\<exists>s. retry_loop set_order api clocks j (initial_state st j) = Some (Inr s) \<and>
           length (requests s) = 3 \<and>
           (\<not> detect_explicit_topic_change ?p \<longrightarrow>
              context_reset_message s = None \<and>
              (\<exists>older. stored_messages (wstore s) ?u = older @ [?m 0, ?m 1, ?m 2])) \<and>
           (detect_explicit_topic_change ?p \<longrightarrow>
              context_reset_message s = Some New_conversation_started \<and>
              stored_messages (wstore s) ?u = [?m 2])"
      using twice third explicit [of ?st2 2] by (simp add: store numeral_2_eq_2)
  qed
qed

lemma phrase_new_topic: "detect_explicit_topic_change ''new topic please''"
  by (simp add: detect_explicit_topic_change_def AUTO_RESET_KEYWORDS_def char_classes)

lemma no_phrase_hello: "\<not> detect_explicit_topic_change ''hello there''"
  by (simp add: detect_explicit_topic_change_def AUTO_RESET_KEYWORDS_def char_classes)

text \<open>
  Claim C10 as stated fails for a prompt with a reset phrase: after one failure and a
  success the history holds the prompt once, not twice.
\<close>

theorem reset_phrase_stored_once:
  "map_option (\<lambda>out. map content (stored_messages (wstore (state_of out)) 1))
     (retry_loop remdups
        (\<lambda>n. if n < 1 then Raises ''timeout'' else Returns (Some (Text ''sure'')))
        (\<lambda>n. at_time (real n))
        \<lparr>job_user_id = 1, job_has_message = True, job_prompt = ''new topic please'', job_tools = []\<rparr>
        (initial_state empty_store
          \<lparr>job_user_id = 1, job_has_message = True, job_prompt = ''new topic please'', job_tools = []\<rparr>)) =
   Some [''new topic please'']"
  using explicit_reset_result [OF phrase_new_topic, of remdups _ 1 "at_time 1"]
  by (simp add: loop_retries loop_returns loop_done max_retries_def state_of_def begin_attempt_store
        stored_messages_def new_message_def)

theorem prompt_appended_on_every_attempt_witness:
  "Builtin ''image_generation'' \<notin> set (job_tools
      \<lparr>job_user_id = 1, job_has_message = True, job_prompt = ''hello there'', job_tools = []\<rparr>) \<and>
   (\<exists>s. retry_loop remdups
        (\<lambda>n. if n < 1 then Raises ''timeout'' else Returns (Some (Text ''sure'')))
        (\<lambda>n. at_time (real n))
        \<lparr>job_user_id = 1, job_has_message = True, job_prompt = ''hello there'', job_tools = []\<rparr>
        (initial_state empty_store
          \<lparr>job_user_id = 1, job_has_message = True, job_prompt = ''hello there'', job_tools = []\<rparr>) =
        Some (Inr s) \<and>
      length (requests s) = 2 \<and> context_reset_message s = None \<and>
      (\<exists>older. map content (stored_messages (wstore s) 1) = older @ [''hello there'', ''hello there'']))"
proof -
  let ?j = "\<lparr>job_user_id = 1, job_has_message = True, job_prompt = ''hello there'', job_tools = []\<rparr>"
  let ?api = "\<lambda>n::nat. if n < 1 then Raises ''timeout'' else Returns (Some (Text ''sure''))"
  have tools: "Builtin ''image_generation'' \<notin> set (job_tools ?j)" by simp
  have "?api 0 = Raises ''timeout'' \<and> ?api 1 = Returns (Some (Text ''sure''))" by simp
  with prompt_appended_on_every_attempt [OF tools, of ?api "''timeout''" "Text ''sure''" remdups
      "\<lambda>n. at_time (real n)" empty_store] no_phrase_hello
  obtain s older where "retry_loop remdups ?api (\<lambda>n. at_time (real n)) ?j (initial_state empty_store ?j) =
      Some (Inr s)" and "length (requests s) = 2" and "context_reset_message s = None"
    and "stored_messages (wstore s) 1 =
      older @ [prompt_message remdups (\<lambda>n. at_time (real n)) ?j 0,
               prompt_message remdups (\<lambda>n. at_time (real n)) ?j 1]"
    by auto
  then show ?thesis
    using tools by (auto simp: prompt_message_def new_message_def)
qed

end
